theory Spec2Isabelle
  imports Complex_Main
begin

section \<open>The game component of \<^verbatim>\<open>src/components/Game.tsx\<close>\<close>

text \<open>
  The component keeps its data in React state (\<^verbatim>\<open>gameStarted\<close>, \<^verbatim>\<open>gameOver\<close>,
  \<^verbatim>\<open>score\<close>, \<^verbatim>\<open>highScore\<close>), in refs (\<^verbatim>\<open>birdRef\<close>, \<^verbatim>\<open>pipesRef\<close>, \<^verbatim>\<open>frameRef\<close>)
  and in one key of the browser's local storage. The model is explicit state passing over
  a record of these. JavaScript numbers are modelled as exact rationals: every bird
  coordinate that arises is a multiple of one half and every pipe abscissa an integer, far
  below \<open>2 ^ 53\<close>, so the double arithmetic of the source is exact on them. The top
  height of a pipe is computed from a random number and is rounded in the source; nothing
  below depends on it but through comparisons with multiples of one half, which rounding
  to nearest preserves. The score is an integer. The one number that may be no number at
  all, the high score read from storage, has its own type with \<open>NaN\<close>. Rendering, the
  cloud layer and audio playback read the state but never write the fields modelled here,
  and are left out.
\<close>

subsection \<open>Constants\<close>

definition GRAVITY :: rat where "GRAVITY = 1 / 2"
definition JUMP_FORCE :: rat where "JUMP_FORCE = - 8"
definition PIPE_SPEED :: rat where "PIPE_SPEED = 3"
definition PIPE_WIDTH :: rat where "PIPE_WIDTH = 52"
definition PIPE_GAP :: rat where "PIPE_GAP = 150"
definition BIRD_WIDTH :: rat where "BIRD_WIDTH = 34"
definition BIRD_HEIGHT :: rat where "BIRD_HEIGHT = 24"

text \<open>The canvas element is created with \<^verbatim>\<open>width={800} height={500}\<close>.\<close>

definition CANVAS_WIDTH :: rat where "CANVAS_WIDTH = 800"
definition CANVAS_HEIGHT :: rat where "CANVAS_HEIGHT = 500"

lemmas consts_defs =
  GRAVITY_def JUMP_FORCE_def PIPE_SPEED_def PIPE_WIDTH_def PIPE_GAP_def
  BIRD_WIDTH_def BIRD_HEIGHT_def CANVAS_WIDTH_def CANVAS_HEIGHT_def

subsection \<open>Data\<close>

text \<open>
  The fields \<^verbatim>\<open>y\<close> of \<^verbatim>\<open>Bird\<close> and \<^verbatim>\<open>x\<close> of \<^verbatim>\<open>Pipe\<close> are named \<open>bird_y\<close> and
  \<open>pipe_x\<close>, so that the letters stay free for variables.
\<close>

record Bird =
  bird_y :: rat
  velocity :: rat
  rotation :: rat
  frame :: int

record Pipe =
  pipe_x :: rat
  topHeight :: rat

datatype jsnum = NaN | Num int

record Game =
  gameStarted :: bool
  gameOver :: bool
  score :: int
  highScore :: jsnum
  birdRef :: Bird
  pipesRef :: "Pipe list"
  storage :: "string option"

text \<open>\<open>storage\<close> is the value of the key \<^verbatim>\<open>flappyBirdHighScore\<close>; \<open>None\<close> when absent.\<close>

definition init_bird :: Bird where
  "init_bird = \<lparr>bird_y = 250, velocity = 0, rotation = 0, frame = 0\<rparr>"

definition playing :: "Game \<Rightarrow> bool" where
  "playing s = (gameStarted s \<and> \<not> gameOver s)"

subsection \<open>Number to string and back\<close>

text \<open>
  \<^verbatim>\<open>Number.prototype.toString\<close> on an integer and \<^verbatim>\<open>parseInt(_, 10)\<close>, as ECMAScript
  defines them: \<^verbatim>\<open>parseInt\<close> skips leading white space, reads an optional sign, then the
  longest run of decimal digits, and answers \<open>NaN\<close> when that run is empty. Characters
  are the code units below 256, so the white space characters are the seven below.
  The functions are those of the source on integers of magnitude up to \<open>2 ^ 53\<close>, which a
  double holds exactly and prints in plain digits. Beyond that the source differs:
  \<^verbatim>\<open>parseInt\<close> answers the nearest double, or an infinity, and \<^verbatim>\<open>toString\<close> turns to
  exponent notation from \<open>10 ^ 21\<close>; what is stated below of a parsed string has the
  bound as a hypothesis. The strings the game writes are scores, which stay far within it.
\<close>

definition digit_char :: "nat \<Rightarrow> char" where
  "digit_char d = char_of (48 + d)"

fun nat_digits :: "nat \<Rightarrow> string" where
  "nat_digits n = (if n < 10 then [digit_char n] else nat_digits (n div 10) @ [digit_char (n mod 10)])"

declare nat_digits.simps [simp del]

definition toString :: "int \<Rightarrow> string" where
  "toString n = (if n < 0 then CHR ''-'' # nat_digits (nat (- n)) else nat_digits (nat n))"

definition is_ws :: "char \<Rightarrow> bool" where
  "is_ws c = ((of_char c :: nat) \<in> {9, 10, 11, 12, 13, 32, 160})"

definition is_digit :: "char \<Rightarrow> bool" where
  "is_digit c = (48 \<le> (of_char c :: nat) \<and> (of_char c :: nat) \<le> 57)"

definition digit_val :: "char \<Rightarrow> nat" where
  "digit_val c = of_char c - 48"

definition dec_value :: "string \<Rightarrow> nat" where
  "dec_value ds = foldl (\<lambda>a c. 10 * a + digit_val c) 0 ds"

definition parseInt10 :: "string \<Rightarrow> jsnum" where
  "parseInt10 s =
     (let t = dropWhile is_ws s;
          neg = (t \<noteq> [] \<and> hd t = CHR ''-'');
          u = (if t \<noteq> [] \<and> (hd t = CHR ''-'' \<or> hd t = CHR ''+'') then tl t else t);
          z = takeWhile is_digit u
      in if z = [] then NaN
         else Num ((if neg then - 1 else 1) * int (dec_value z)))"

text \<open>
  The initialiser of \<^verbatim>\<open>highScore\<close>: \<^verbatim>\<open>saved ? parseInt(saved, 10) : 0\<close>. Both
  \<^verbatim>\<open>null\<close> and the empty string are falsy.
\<close>

definition initial_highScore :: "string option \<Rightarrow> jsnum" where
  "initial_highScore saved =
     (case saved of None \<Rightarrow> Num 0
      | Some s \<Rightarrow> if s = [] then Num 0 else parseInt10 s)"

definition initial :: "string option \<Rightarrow> Game" where
  "initial saved =
     \<lparr>gameStarted = False, gameOver = False, score = 0,
      highScore = initial_highScore saved,
      birdRef = init_bird, pipesRef = [], storage = saved\<rparr>"

subsection \<open>The actions \<^verbatim>\<open>jump\<close> and \<^verbatim>\<open>resetGame\<close>\<close>

text \<open>
  \<^verbatim>\<open>jump\<close> tests the values of \<^verbatim>\<open>gameStarted\<close> and \<^verbatim>\<open>gameOver\<close> that its closure
  captured at the last render, so the second test reads the old \<^verbatim>\<open>gameOver\<close>, not the
  one just set.
\<close>

definition jump :: "Game \<Rightarrow> Game" where
  "jump s =
     (let s1 = (if \<not> gameStarted s
                then s\<lparr>gameStarted := True, gameOver := False, score := 0,
                       birdRef := init_bird, pipesRef := []\<rparr>
                else s)
      in if \<not> gameOver s
         then s1\<lparr>birdRef := (birdRef s1)\<lparr>velocity := JUMP_FORCE, rotation := - 20\<rparr>\<rparr>
         else s1)"

definition resetGame :: "Game \<Rightarrow> Game" where
  "resetGame s =
     s\<lparr>gameStarted := False, gameOver := False, score := 0,
       birdRef := init_bird, pipesRef := []\<rparr>"

subsection \<open>One call of \<^verbatim>\<open>gameLoop\<close>\<close>

text \<open>
  On entry \<^verbatim>\<open>frameRef.current\<close> holds the identifier of the animation-frame request
  that scheduled this call: every request in the source is written as
  \<^verbatim>\<open>frameRef.current = requestAnimationFrame(gameLoop)\<close>, and nothing else assigns the
  ref between two calls. The identifier is chosen by the browser, so it is an input
  \<open>h\<close> of the call, as is the value \<open>r\<close> that \<^verbatim>\<open>Math.random()\<close> returns for a new pipe.
  State updates requested during a call are visible from the next call on.
\<close>

definition update_bird :: "Bird \<Rightarrow> Bird" where
  "update_bird b =
     (let v = velocity b + GRAVITY;
          yb = bird_y b + v;
          rot = rotation b + 2
      in \<lparr>bird_y = yb, velocity = v,
          rotation = (if rot > 70 then 70 else rot),
          frame = (frame b + 1) mod 3\<rparr>)"

definition generate_pipes :: "int \<Rightarrow> rat \<Rightarrow> Pipe list \<Rightarrow> Pipe list" where
  "generate_pipes h r ps =
     (if (h + 1) mod 100 = 0
      then ps @ [\<lparr>pipe_x = CANVAS_WIDTH,
                  topHeight = r * (CANVAS_HEIGHT - PIPE_GAP - 100) + 50\<rparr>]
      else ps)"

definition update_pipes :: "Pipe list \<Rightarrow> Pipe list" where
  "update_pipes ps =
     map (\<lambda>p. p\<lparr>pipe_x := pipe_x p - PIPE_SPEED\<rparr>)
       (filter (\<lambda>p. pipe_x p > - PIPE_WIDTH) ps)"

definition out_of_bounds :: "Bird \<Rightarrow> bool" where
  "out_of_bounds b = (bird_y b < 0 \<or> bird_y b > CANVAS_HEIGHT)"

definition pipe_hit :: "Bird \<Rightarrow> Pipe \<Rightarrow> bool" where
  "pipe_hit b p =
     ((bird_y b < topHeight p \<or> bird_y b > topHeight p + PIPE_GAP) \<and>
      (bird_y b + BIRD_HEIGHT > topHeight p \<and>
       bird_y b < topHeight p + PIPE_GAP + BIRD_HEIGHT \<and>
       pipe_x p < BIRD_WIDTH + 50 \<and>
       pipe_x p + PIPE_WIDTH > 50))"

definition collision :: "Bird \<Rightarrow> Pipe list \<Rightarrow> bool" where
  "collision b ps = (out_of_bounds b \<or> list_ex (pipe_hit b) ps)"

definition in_window :: "Pipe \<Rightarrow> bool" where
  "in_window p = (pipe_x p + PIPE_WIDTH < 50 \<and> pipe_x p + PIPE_WIDTH > 47)"

text \<open>The number of pipes of a list whose trailing edge is in the scoring window.\<close>

definition window_count :: "Pipe list \<Rightarrow> int" where
  "window_count ps = int (length (filter in_window ps))"

fun js_gt :: "int \<Rightarrow> jsnum \<Rightarrow> bool" where
  "js_gt n NaN = False"
| "js_gt n (Num m) = (n > m)"

text \<open>
  The scoring pass. Each pipe in the window queues one updater of \<^verbatim>\<open>score\<close>; the
  updaters run in order, each on the result of the one before, and each compares the
  new score with the \<^verbatim>\<open>highScore\<close> \<open>H\<close> that the closure of \<^verbatim>\<open>gameLoop\<close> captured.
  The triple is the score, the high score and the stored string.
\<close>

fun update_score :: "jsnum \<Rightarrow> Pipe list \<Rightarrow> int \<times> jsnum \<times> string option \<Rightarrow> int \<times> jsnum \<times> string option" where
  "update_score H [] acc = acc"
| "update_score H (p # ps) (sc, hs, st) =
     (if in_window p
      then (let newScore = sc + 1
            in if js_gt newScore H
               then update_score H ps (newScore, Num newScore, Some (toString newScore))
               else update_score H ps (newScore, hs, st))
      else update_score H ps (sc, hs, st))"

definition gameLoop :: "int \<Rightarrow> rat \<Rightarrow> Game \<Rightarrow> Game" where
  "gameLoop h r s =
     (if \<not> gameStarted s \<or> gameOver s then s
      else
        (let bird = update_bird (birdRef s);
             pipes = update_pipes (generate_pipes h r (pipesRef s));
             (sc, hs, st) = update_score (highScore s) pipes (score s, highScore s, storage s)
         in s\<lparr>gameOver := collision bird pipes,
              score := sc, highScore := hs,
              birdRef := bird, pipesRef := pipes, storage := st\<rparr>))"

subsection \<open>Traces\<close>

datatype input = Tick int rat | Jump | Reset

fun step :: "input \<Rightarrow> Game \<Rightarrow> Game" where
  "step (Tick h r) s = gameLoop h r s"
| "step Jump s = jump s"
| "step Reset s = resetGame s"

fun run :: "input list \<Rightarrow> Game \<Rightarrow> Game" where
  "run [] s = s"
| "run (e # es) s = run es (step e s)"

text \<open>\<open>ticks\<close> runs one call of \<^verbatim>\<open>gameLoop\<close> for each pair of a request identifier and a random value.\<close>

fun ticks :: "(int \<times> rat) list \<Rightarrow> Game \<Rightarrow> Game" where
  "ticks [] s = s"
| "ticks ((h, r) # is) s = ticks is (gameLoop h r s)"

subsection \<open>Properties and example states used in the statements below\<close>

text \<open>The bound on the top segment of a pipe that keeps its gap inside the playfield.\<close>

definition pipe_ok :: "Pipe \<Rightarrow> bool" where
  "pipe_ok p = (50 \<le> topHeight p \<and> topHeight p + PIPE_GAP \<le> CANVAS_HEIGHT - 50)"

text \<open>\<^verbatim>\<open>Math.random()\<close> returns a number from 0 inclusive to 1 exclusive.\<close>

fun rand_ok :: "input \<Rightarrow> bool" where
  "rand_ok (Tick h r) = (0 \<le> r \<and> r < 1)"
| "rand_ok Jump = True"
| "rand_ok Reset = True"

text \<open>
  The collision rule in the words of the specification: the bird's vertical extent, from
  \<open>bird_y\<close> to \<open>bird_y + BIRD_HEIGHT\<close>, lies outside the gap band of a pipe whose horizontal
  extent overlaps the bird's (from 50 to \<open>50 + BIRD_WIDTH\<close>), or the bird's position is
  above 0 or below the canvas height. "Outside" is read in its narrowest sense, the whole
  extent above the band or the whole extent below it; a bird that satisfies this reading
  satisfies every wider one.
\<close>

definition spec_pipe_collision :: "Bird \<Rightarrow> Pipe \<Rightarrow> bool" where
  "spec_pipe_collision b p =
     ((bird_y b + BIRD_HEIGHT \<le> topHeight p \<or> bird_y b \<ge> topHeight p + PIPE_GAP) \<and>
      pipe_x p < 50 + BIRD_WIDTH \<and> 50 < pipe_x p + PIPE_WIDTH)"

definition spec_collision :: "Bird \<Rightarrow> Pipe list \<Rightarrow> bool" where
  "spec_collision b ps =
     (list_ex (spec_pipe_collision b) ps \<or> bird_y b < 0 \<or> bird_y b > CANVAS_HEIGHT)"

text \<open>A Playing state whose bird flies level with the top segment of a pipe that reaches it.\<close>

definition inside_top_pipe_state :: Game where
  "inside_top_pipe_state =
     \<lparr>gameStarted = True, gameOver = False, score = 0, highScore = Num 0,
      birdRef = \<lparr>bird_y = 150, velocity = 0, rotation = 0, frame = 0\<rparr>,
      pipesRef = [\<lparr>pipe_x = 80, topHeight = 275\<rparr>],
      storage = None\<rparr>"

text \<open>A Playing state with one pipe whose left edge is at \<open>- PIPE_WIDTH\<close> and one on screen.\<close>

definition removal_state :: Game where
  "removal_state =
     \<lparr>gameStarted = True, gameOver = False, score = 0, highScore = Num 0,
      birdRef = init_bird,
      pipesRef = [\<lparr>pipe_x = - 52, topHeight = 100\<rparr>, \<lparr>pipe_x = 100, topHeight = 200\<rparr>],
      storage = None\<rparr>"

text \<open>A Playing state whose bird leaves the canvas on the tick on which a pipe is scored.\<close>

definition crash_and_score_state :: Game where
  "crash_and_score_state =
     \<lparr>gameStarted = True, gameOver = False, score = 3, highScore = Num 3,
      birdRef = \<lparr>bird_y = 499, velocity = 5, rotation = 70, frame = 0\<rparr>,
      pipesRef = [\<lparr>pipe_x = - 1, topHeight = 100\<rparr>],
      storage = Some ''3''\<rparr>"

text \<open>Every call of \<^verbatim>\<open>gameLoop\<close> of the list finds the session Playing.\<close>

fun playing_through :: "(int \<times> rat) list \<Rightarrow> Game \<Rightarrow> bool" where
  "playing_through [] s = True"
| "playing_through ((h, r) # is) s = (playing s \<and> playing_through is (gameLoop h r s))"

text \<open>
  What every bird of a started session satisfies: a jump sets the velocity to
  \<open>JUMP_FORCE\<close> and the rotation to \<open>- 20\<close>, and each tick adds \<open>GRAVITY\<close> to the one and 2
  to the other until the rotation stops at 70. \<open>reachable_inv\<close> holds of every state the
  inputs lead to from the initial one.
\<close>

definition flying :: "Bird \<Rightarrow> bool" where
  "flying b =
     (rotation b < 70 \<and> velocity b = JUMP_FORCE + (rotation b + 20) / 4 \<or>
      rotation b = 70 \<and> 29 / 2 \<le> velocity b)"

definition reachable_inv :: "Game \<Rightarrow> bool" where
  "reachable_inv s = ((gameOver s \<longrightarrow> gameStarted s) \<and> (gameStarted s \<longrightarrow> flying (birdRef s)))"

text \<open>
  The bird's ordinate \<open>n\<close> ticks after the jump that starts a session: it starts at 250
  with velocity \<open>JUMP_FORCE\<close>, and each tick adds \<open>GRAVITY\<close> to the velocity and then the
  velocity to the ordinate. \<open>fall_state\<close> describes the state after these \<open>n\<close> ticks.
\<close>

definition fall_y :: "nat \<Rightarrow> rat" where
  "fall_y n = 250 - 8 * of_nat n + of_nat n * (of_nat n + 1) / 4"

definition fall_state :: "jsnum \<Rightarrow> nat \<Rightarrow> Game \<Rightarrow> bool" where
  "fall_state H n t =
     (gameStarted t \<and>
      velocity (birdRef t) = - 8 + of_nat n / 2 \<and>
      bird_y (birdRef t) = fall_y n \<and>
      (\<forall>p \<in> set (pipesRef t). 800 - 3 * of_nat n \<le> pipe_x p) \<and>
      score t = 0 \<and> highScore t = H)"

text \<open>
  A base-10 integer string in the words of the specification: an optional minus sign and
  one or more decimal digits; and the integer it denotes.
\<close>

definition is_int_string :: "string \<Rightarrow> bool" where
  "is_int_string s =
     (case s of [] \<Rightarrow> False
      | c # cs \<Rightarrow> if c = CHR ''-'' then cs \<noteq> [] \<and> list_all is_digit cs
                 else list_all is_digit s)"

definition int_of_string :: "string \<Rightarrow> int" where
  "int_of_string s =
     (if hd s = CHR ''-'' then - int (dec_value (tl s)) else int (dec_value s))"

text \<open>
  The test that decides whether a call of \<^verbatim>\<open>gameLoop\<close> with request identifier \<open>h\<close>
  adds a pipe, and the pipe it adds for the random value \<open>r\<close>.
\<close>

definition spawns :: "int \<Rightarrow> bool" where
  "spawns h = ((h + 1) mod 100 = 0)"

definition new_pipe :: "rat \<Rightarrow> Pipe" where
  "new_pipe r = \<lparr>pipe_x = CANVAS_WIDTH, topHeight = r * (CANVAS_HEIGHT - PIPE_GAP - 100) + 50\<rparr>"

text \<open>The calls of \<^verbatim>\<open>gameLoop\<close> among a list of inputs, in order.\<close>

fun tick_inputs :: "input list \<Rightarrow> (int \<times> rat) list" where
  "tick_inputs [] = []"
| "tick_inputs (Tick h r # es) = (h, r) # tick_inputs es"
| "tick_inputs (e # es) = tick_inputs es"

text \<open>
  The session continues through a list of inputs: each of them arrives in the Playing
  state, and none is a reset.
\<close>

fun running :: "input list \<Rightarrow> Game \<Rightarrow> bool" where
  "running [] s = True"
| "running (e # es) s = (playing s \<and> e \<noteq> Reset \<and> running es (step e s))"

text \<open>
  A pipe added for the random value \<open>r\<close>, after it was moved \<open>a\<close> times; and the pipes
  expected after a history of ticks, given latest first, and \<open>a\<close> further moves: a pipe
  stays in the list for 284 moves.
\<close>

definition aged_pipe :: "nat \<Rightarrow> rat \<Rightarrow> Pipe" where
  "aged_pipe a r = \<lparr>pipe_x = CANVAS_WIDTH - PIPE_SPEED * of_nat a, topHeight = topHeight (new_pipe r)\<rparr>"

fun aged_pipes :: "(int \<times> rat) list \<Rightarrow> nat \<Rightarrow> Pipe list" where
  "aged_pipes [] a = []"
| "aged_pipes ((h, r) # older) a =
     aged_pipes older (Suc a) @ (if spawns h \<and> Suc a \<le> 284 then [aged_pipe (Suc a) r] else [])"

text \<open>
  A flight that keeps the session going: after a jump at height 250 the bird rises to
  about 190 and is back at 250 after 31 ticks, when the next jump comes. A pipe is safe for
  this flight when the whole flight is inside its gap band, or wholly level with its top
  segment. \<open>flight r\<close> is eight such rounds and 19 ticks of a ninth, 267 ticks in all,
  with consecutive request identifiers from 99 on, so that the first tick adds a pipe.
\<close>

definition safe_pipe :: "Pipe \<Rightarrow> bool" where
  "safe_pipe p =
     (topHeight p \<le> 189 \<and> 250 \<le> topHeight p + PIPE_GAP \<or> 250 + BIRD_HEIGHT \<le> topHeight p)"

fun safe_tick :: "input \<Rightarrow> bool" where
  "safe_tick (Tick h r) = safe_pipe (new_pipe r)"
| "safe_tick Jump = False"
| "safe_tick Reset = False"

definition arc_start :: "Game \<Rightarrow> bool" where
  "arc_start s =
     (playing s \<and> bird_y (birdRef s) = 250 \<and> velocity (birdRef s) = JUMP_FORCE \<and>
      list_all safe_pipe (pipesRef s))"

definition cycle :: "int \<Rightarrow> rat \<Rightarrow> input list" where
  "cycle h0 r = map (\<lambda>k. Tick (h0 + int k) r) [0..<31] @ [Jump]"

definition flight :: "rat \<Rightarrow> input list" where
  "flight r =
     concat (map (\<lambda>c. cycle (99 + 31 * int c) r) [0..<8]) @
     map (\<lambda>k. Tick (347 + int k) r) [0..<19]"

text \<open>JavaScript's \<^verbatim>\<open><\<close> on two numbers, false when either is \<open>NaN\<close>.\<close>

fun js_lt :: "jsnum \<Rightarrow> jsnum \<Rightarrow> bool" where
  "js_lt (Num a) (Num b) = (a < b)"
| "js_lt _ _ = False"

text \<open>The inputs of one session: calls of \<^verbatim>\<open>gameLoop\<close> and jumps, no reset.\<close>

fun in_session :: "input \<Rightarrow> bool" where
  "in_session (Tick h r) = True"
| "in_session Jump = True"
| "in_session Reset = False"

text \<open>
  Eight rounds of the flight and one tick of a ninth: 249 ticks, after which the pipe
  added on the first tick is about to reach the bird.
\<close>

definition approach :: "rat \<Rightarrow> input list" where
  "approach r =
     concat (map (\<lambda>c. cycle (99 + 31 * int c) r) [0..<8]) @ [Tick 347 r]"

section \<open>Basic facts about one call of \<^verbatim>\<open>gameLoop\<close>\<close>

lemma gameLoop_idle: "\<not> playing s \<Longrightarrow> gameLoop h r s = s"
  by (auto simp add: gameLoop_def playing_def)

lemma js_gt_mono: "js_gt n H \<Longrightarrow> n \<le> m \<Longrightarrow> js_gt m H"
  by (cases H) auto

lemma window_count_simps [simp]:
  "window_count [] = 0"
  "window_count (p # ps) = (if in_window p then 1 else 0) + window_count ps"
  by (simp_all add: window_count_def)

lemma window_count_nonneg: "0 \<le> window_count ps"
  by (simp add: window_count_def)

lemma update_score_closed:
  "update_score H ps (sc, hs, st) =
     (sc + window_count ps,
      if 0 < window_count ps \<and> js_gt (sc + window_count ps) H
      then (Num (sc + window_count ps), Some (toString (sc + window_count ps)))
      else (hs, st))"
proof (induction ps arbitrary: sc hs st)
  case Nil
  then show ?case by simp
next
  case (Cons p ps)
  have nn: "0 \<le> window_count ps" by (rule window_count_nonneg)
  show ?case
  proof (cases "in_window p")
    case False
    then show ?thesis by (simp add: Cons.IH)
  next
    case True
    note w = this
    show ?thesis
    proof (cases "js_gt (sc + 1) H")
      case True
      then have "js_gt (sc + 1 + window_count ps) H"
        using nn js_gt_mono by simp
      with True w nn show ?thesis
        by (simp add: Cons.IH Let_def ac_simps)
    next
      case False
      with w nn show ?thesis
        by (auto simp add: Cons.IH Let_def ac_simps)
    qed
  qed
qed

lemma gameLoop_playing:
  assumes "playing s"
  shows "gameStarted (gameLoop h r s)"
    and "birdRef (gameLoop h r s) = update_bird (birdRef s)"
    and "pipesRef (gameLoop h r s) = update_pipes (generate_pipes h r (pipesRef s))"
    and "gameOver (gameLoop h r s) =
           collision (update_bird (birdRef s)) (update_pipes (generate_pipes h r (pipesRef s)))"
    and "score (gameLoop h r s) =
           score s + window_count (update_pipes (generate_pipes h r (pipesRef s)))"
  using assms
  by (simp_all add: gameLoop_def playing_def Let_def update_score_closed)

lemma gameLoop_highScore:
  assumes "playing s"
  shows "highScore (gameLoop h r s) =
           (if 0 < window_count (pipesRef (gameLoop h r s)) \<and> js_gt (score (gameLoop h r s)) (highScore s)
            then Num (score (gameLoop h r s)) else highScore s)"
    and "storage (gameLoop h r s) =
           (if 0 < window_count (pipesRef (gameLoop h r s)) \<and> js_gt (score (gameLoop h r s)) (highScore s)
            then Some (toString (score (gameLoop h r s))) else storage s)"
  using assms
  by (auto simp add: gameLoop_def playing_def Let_def update_score_closed)


section \<open>Resetting\<close>

text \<open>
  Claim C8. The reset action, from any state, leads to Idle (neither started nor over)
  with score 0, no pipes, and the bird at its initial position, velocity, rotation and
  animation frame.
\<close>

theorem C8_reset_restores_idle: "gameStarted (resetGame s) = False \<and> gameOver (resetGame s) = False \<and>
   score (resetGame s) = 0 \<and> pipesRef (resetGame s) = [] \<and>
   birdRef (resetGame s) = \<lparr>bird_y = 250, velocity = 0, rotation = 0, frame = 0\<rparr>"
  by (simp add: resetGame_def init_bird_def)

section \<open>Collision\<close>

lemma gameOver_only_if:
  assumes "playing s" "gameOver (gameLoop h r s)"
  shows "out_of_bounds (birdRef (gameLoop h r s)) \<or>
         (\<exists>p \<in> set (pipesRef (gameLoop h r s)).
            (bird_y (birdRef (gameLoop h r s)) < topHeight p \<or>
             bird_y (birdRef (gameLoop h r s)) > topHeight p + PIPE_GAP) \<and>
            pipe_x p < BIRD_WIDTH + 50 \<and> pipe_x p + PIPE_WIDTH > 50)"
  using assms
  by (auto simp add: gameLoop_playing collision_def pipe_hit_def list_ex_iff)

text \<open>
  Claim C10. On a tick on which a collision is detected the scoring pass still runs: the
  session goes to GameOver, the score still grows by the number of pipes whose trailing
  edge is in the scoring window, and the high score follows it when exceeded.
\<close>

theorem C10_scoring_runs_on_collision_tick:
  assumes "playing s"
    and "collision (birdRef (gameLoop h r s)) (pipesRef (gameLoop h r s))"
  shows "gameOver (gameLoop h r s) \<and>
         score (gameLoop h r s) = score s + window_count (pipesRef (gameLoop h r s)) \<and>
         highScore (gameLoop h r s) =
           (if 0 < window_count (pipesRef (gameLoop h r s)) \<and>
               js_gt (score (gameLoop h r s)) (highScore s)
            then Num (score (gameLoop h r s)) else highScore s)"
proof -
  from assms have "gameOver (gameLoop h r s)"
    by (simp add: gameLoop_playing)
  moreover from assms(1) have "score (gameLoop h r s) = score s + window_count (pipesRef (gameLoop h r s))"
    by (simp add: gameLoop_playing)
  moreover note gameLoop_highScore(1) [OF assms(1), of h r]
  ultimately show ?thesis by blast
qed

lemma crash_and_score_tick:
  "birdRef (gameLoop 0 0 crash_and_score_state) = \<lparr>bird_y = 1009 / 2, velocity = 11 / 2, rotation = 70, frame = 1\<rparr>"
  "pipesRef (gameLoop 0 0 crash_and_score_state) = [\<lparr>pipe_x = - 4, topHeight = 100\<rparr>]"
  by (simp_all add: crash_and_score_state_def playing_def gameLoop_playing update_bird_def
        update_pipes_def generate_pipes_def consts_defs Let_def)

theorem C10_scoring_runs_on_collision_tick_witness:
  "playing crash_and_score_state \<and>
   collision (birdRef (gameLoop 0 0 crash_and_score_state)) (pipesRef (gameLoop 0 0 crash_and_score_state)) \<and>
   gameOver (gameLoop 0 0 crash_and_score_state) \<and>
   score crash_and_score_state = 3 \<and> score (gameLoop 0 0 crash_and_score_state) = 4 \<and>
   highScore crash_and_score_state = Num 3 \<and> highScore (gameLoop 0 0 crash_and_score_state) = Num 4"
proof -
  have p: "playing crash_and_score_state"
    by (simp add: crash_and_score_state_def playing_def)
  have c: "collision (birdRef (gameLoop 0 0 crash_and_score_state)) (pipesRef (gameLoop 0 0 crash_and_score_state))"
    by (simp add: crash_and_score_tick collision_def out_of_bounds_def consts_defs)
  have w: "window_count (pipesRef (gameLoop 0 0 crash_and_score_state)) = 1"
    by (simp add: crash_and_score_tick in_window_def consts_defs)
  have s: "score crash_and_score_state = 3" "highScore crash_and_score_state = Num 3"
    by (simp_all add: crash_and_score_state_def)
  show ?thesis
    using p c C10_scoring_runs_on_collision_tick [OF p c] by (simp add: w s)
qed

section \<open>Moving and removing pipes\<close>

lemma update_pipes_right_edge:
  "update_pipes ps =
     map (\<lambda>p. p\<lparr>pipe_x := pipe_x p - PIPE_SPEED\<rparr>)
       (filter (\<lambda>p. \<not> pipe_x p + PIPE_WIDTH \<le> 0) ps)"
proof -
  have "filter (\<lambda>p. pipe_x p > - PIPE_WIDTH) ps = filter (\<lambda>p. \<not> pipe_x p + PIPE_WIDTH \<le> 0) ps"
    by (rule filter_cong) auto
  then show ?thesis by (simp only: update_pipes_def)
qed

text \<open>
  Claim C3, as stated: a pipe is removed on a Playing tick if and only if its right edge
  \<open>pipe_x + PIPE_WIDTH\<close> is less than \<open>- PIPE_WIDTH\<close>. The filter of the source keeps
  \<open>pipe_x > - PIPE_WIDTH\<close>: the first pipe below has its right edge at 0, which is not less
  than \<open>- PIPE_WIDTH\<close>, and is removed.
\<close>

theorem C3_removed_at_right_edge_zero:
  "playing removal_state \<and>
   \<not> (pipe_x \<lparr>pipe_x = - 52, topHeight = 100\<rparr> + PIPE_WIDTH < - PIPE_WIDTH) \<and>
   \<lparr>pipe_x = - 52, topHeight = 100\<rparr> \<in> set (pipesRef removal_state) \<and>
   pipesRef (gameLoop 0 0 removal_state) = [\<lparr>pipe_x = 97, topHeight = 200\<rparr>]"
  by (simp add: removal_state_def playing_def gameLoop_playing update_pipes_def generate_pipes_def consts_defs)

text \<open>
  Claim C3, amended: on every Playing tick a pipe of the list (the one spawned on this tick
  included) is removed if and only if its right edge \<open>pipe_x + PIPE_WIDTH\<close> is at most 0;
  the pipes not removed stay in order and are shifted left by exactly \<open>PIPE_SPEED\<close>.
\<close>

theorem C3_pipes_removed_and_shifted:
  "playing s \<Longrightarrow>
   pipesRef (gameLoop h r s) =
     map (\<lambda>p. p\<lparr>pipe_x := pipe_x p - PIPE_SPEED\<rparr>)
       (filter (\<lambda>p. \<not> pipe_x p + PIPE_WIDTH \<le> 0) (generate_pipes h r (pipesRef s)))"
  by (simp add: gameLoop_playing update_pipes_right_edge)

theorem C3_pipes_removed_and_shifted_witness:
  "playing removal_state \<and>
   pipesRef (gameLoop 0 0 removal_state) = [\<lparr>pipe_x = 97, topHeight = 200\<rparr>]"
proof -
  have p: "playing removal_state" by (simp add: removal_state_def playing_def)
  show ?thesis
    using p C3_pipes_removed_and_shifted [OF p, of 0 0]
    by (simp add: removal_state_def generate_pipes_def consts_defs)
qed

section \<open>The gap of every pipe fits the playfield\<close>

lemma generate_pipes_ok:
  "0 \<le> r \<Longrightarrow> r < 1 \<Longrightarrow> list_all pipe_ok ps \<Longrightarrow> list_all pipe_ok (generate_pipes h r ps)"
  by (simp add: generate_pipes_def pipe_ok_def consts_defs)

lemma update_pipes_ok: "list_all pipe_ok ps \<Longrightarrow> list_all pipe_ok (update_pipes ps)"
  by (induction ps) (simp_all add: update_pipes_def pipe_ok_def)

lemma gameLoop_pipes_ok:
  assumes "0 \<le> r" "r < 1" "list_all pipe_ok (pipesRef s)"
  shows "list_all pipe_ok (pipesRef (gameLoop h r s))"
proof (cases "playing s")
  case True
  then show ?thesis
    using assms by (simp add: gameLoop_playing generate_pipes_ok update_pipes_ok)
next
  case False
  then show ?thesis using assms by (simp add: gameLoop_idle)
qed

lemma step_pipes_ok:
  "rand_ok e \<Longrightarrow> list_all pipe_ok (pipesRef s) \<Longrightarrow> list_all pipe_ok (pipesRef (step e s))"
  by (cases e) (simp_all add: gameLoop_pipes_ok jump_def resetGame_def Let_def)

lemma run_pipes_ok:
  "list_all rand_ok es \<Longrightarrow> list_all pipe_ok (pipesRef s) \<Longrightarrow> list_all pipe_ok (pipesRef (run es s))"
  by (induction es arbitrary: s) (simp_all add: step_pipes_ok)

text \<open>
  Claim C9. Whatever values \<^verbatim>\<open>Math.random()\<close> returns (each at least 0 and less
  than 1), after any sequence of ticks, jumps and resets from the initial state every pipe of the list has a top segment of height at
  least 50 and its top height plus the gap is at most the canvas height minus 50.
\<close>

theorem C9_gap_fits_playfield:
  "list_all rand_ok es \<Longrightarrow>
   \<forall>p \<in> set (pipesRef (run es (initial saved))).
     50 \<le> topHeight p \<and> topHeight p + PIPE_GAP \<le> CANVAS_HEIGHT - 50"
proof -
  assume "list_all rand_ok es"
  then have "list_all pipe_ok (pipesRef (run es (initial saved)))"
    by (rule run_pipes_ok) (simp add: initial_def)
  then show ?thesis by (simp add: list_all_iff pipe_ok_def)
qed

theorem C9_gap_fits_playfield_witness:
  "list_all rand_ok [Jump, Tick 99 (1 / 2)] \<and>
   pipesRef (run [Jump, Tick 99 (1 / 2)] (initial None)) = [\<lparr>pipe_x = 797, topHeight = 175\<rparr>] \<and>
   50 \<le> topHeight (hd (pipesRef (run [Jump, Tick 99 (1 / 2)] (initial None)))) \<and>
   topHeight (hd (pipesRef (run [Jump, Tick 99 (1 / 2)] (initial None)))) + PIPE_GAP \<le> CANVAS_HEIGHT - 50"
proof -
  have h: "list_all rand_ok [Jump, Tick 99 (1 / 2)]" by simp
  have pl: "playing (jump (initial None))"
    by (simp add: playing_def jump_def initial_def Let_def)
  have ps: "pipesRef (jump (initial None)) = []"
    by (simp add: jump_def initial_def Let_def)
  have r: "pipesRef (run [Jump, Tick 99 (1 / 2)] (initial None)) = [\<lparr>pipe_x = 797, topHeight = 175\<rparr>]"
    using pl ps by (simp add: gameLoop_playing generate_pipes_def update_pipes_def consts_defs)
  show ?thesis
    using h r C9_gap_fits_playfield [OF h, of None] by simp
qed

section \<open>Sequences of ticks\<close>

lemma ticks_append: "ticks (as @ bs) s = ticks bs (ticks as s)"
  by (induction as s rule: ticks.induct) simp_all

lemma ticks_snoc: "ticks (as @ [(h, r)]) s = gameLoop h r (ticks as s)"
  by (simp add: ticks_append)

lemma ticks_idle: "\<not> playing s \<Longrightarrow> ticks is s = s"
  by (induction "is" s rule: ticks.induct) (simp_all add: gameLoop_idle)

lemma playing_through_snoc:
  "playing_through (as @ [(h, r)]) s = (playing_through as s \<and> playing (ticks as s))"
  by (induction as s rule: playing_through.induct) auto

lemma update_bird_fields:
  "velocity (update_bird b) = velocity b + GRAVITY"
  "bird_y (update_bird b) = bird_y b + (velocity b + GRAVITY)"
  by (simp_all add: update_bird_def Let_def)

lemma bird_after_ticks:
  "playing_through is s \<Longrightarrow>
   velocity (birdRef (ticks is s)) = velocity (birdRef s) + of_nat (length is) * GRAVITY \<and>
   bird_y (birdRef (ticks is s)) =
     bird_y (birdRef s) + (\<Sum>k = 1..length is. velocity (birdRef s) + of_nat k * GRAVITY)"
proof (induction "is" rule: rev_induct)
  case Nil
  then show ?case by simp
next
  case (snoc i "is")
  obtain h r where i: "i = (h, r)" by (cases i)
  from snoc.prems have pt: "playing_through is s" and pl: "playing (ticks is s)"
    by (simp_all add: i playing_through_snoc)
  from snoc.IH [OF pt] pl show ?case
    by (simp add: i ticks_snoc gameLoop_playing update_bird_fields algebra_simps)
qed

lemma jump_idle:
  assumes "\<not> gameStarted s" "\<not> gameOver s"
  shows "playing (jump s)"
    and "birdRef (jump s) = \<lparr>bird_y = 250, velocity = JUMP_FORCE, rotation = - 20, frame = 0\<rparr>"
    and "pipesRef (jump s) = []"
    and "score (jump s) = 0"
    and "highScore (jump s) = highScore s"
    and "storage (jump s) = storage s"
  using assms by (simp_all add: jump_def playing_def init_bird_def Let_def)

lemma flying_update: "flying b \<Longrightarrow> flying (update_bird b)"
  by (auto simp add: flying_def update_bird_def Let_def consts_defs field_simps)

lemma flying_not_initial: "flying b \<Longrightarrow> b \<noteq> init_bird"
  by (auto simp add: flying_def init_bird_def consts_defs)

lemma reachable_inv_step: "reachable_inv s \<Longrightarrow> reachable_inv (step e s)"
proof (cases e)
  case (Tick h r)
  assume i: "reachable_inv s"
  show ?thesis
  proof (cases "playing s")
    case True
    with i have "flying (birdRef s)" by (simp add: reachable_inv_def playing_def)
    then show ?thesis
      using gameLoop_playing(1,2) [OF True, of h r]
      by (simp add: Tick reachable_inv_def flying_update)
  next
    case False
    with i show ?thesis by (simp add: Tick gameLoop_idle)
  qed
next
  case Jump
  assume "reachable_inv s"
  then show ?thesis
    by (auto simp add: Jump reachable_inv_def jump_def Let_def flying_def init_bird_def)
next
  case Reset
  then show ?thesis by (simp add: reachable_inv_def resetGame_def)
qed

lemma reachable_inv_run: "reachable_inv s \<Longrightarrow> reachable_inv (run es s)"
  by (induction es arbitrary: s) (simp_all add: reachable_inv_step)

lemma playing_bird_not_initial:
  assumes "playing (run es (initial saved))"
  shows "birdRef (run es (initial saved)) \<noteq> init_bird"
proof -
  have "reachable_inv (initial saved)" by (simp add: reachable_inv_def initial_def)
  then have "reachable_inv (run es (initial saved))" by (rule reachable_inv_run)
  with assms show ?thesis
    by (simp add: reachable_inv_def playing_def flying_not_initial)
qed

lemma session_start_playing:
  "playing (jump (initial None))"
  "playing (gameLoop 1 0 (jump (initial None)))"
  "playing (gameLoop 2 0 (gameLoop 1 0 (jump (initial None))))"
  by (simp_all add: jump_def initial_def playing_def gameLoop_playing collision_def out_of_bounds_def
      update_bird_def update_pipes_def generate_pipes_def init_bird_def Let_def consts_defs)

text \<open>
  Claim C5, as stated: after \<open>N\<close> consecutive Playing ticks with no jump input, starting
  from the initial bird, the velocity is \<open>N\<close> times \<open>GRAVITY\<close> and the position is the
  initial position plus the sum of the velocities after each of these ticks. No tick the
  program runs starts from the initial bird: by \<open>playing_bird_not_initial\<close> no Playing state
  has it, because the jump that starts a session puts the bird at its initial position and
  in the same call gives it the velocity \<open>JUMP_FORCE\<close>. On the ticks of a session the
  stated values are wrong: the first tick after the start ends with velocity \<open>- 15 / 2\<close>
  and position 242.5, not \<open>GRAVITY\<close> and 250.5.
\<close>

theorem C5_first_tick_velocity_not_gravity:
  "playing_through [(1, 0)] (jump (initial None)) \<and>
   bird_y (birdRef (jump (initial None))) = 250 \<and>
   velocity (birdRef (ticks [(1, 0)] (jump (initial None)))) = - 15 / 2 \<and>
   bird_y (birdRef (ticks [(1, 0)] (jump (initial None)))) = 485 / 2 \<and>
   velocity (birdRef (ticks [(1, 0)] (jump (initial None)))) \<noteq> of_nat (length [(1, 0) :: int \<times> rat]) * GRAVITY \<and>
   bird_y (birdRef (ticks [(1, 0)] (jump (initial None)))) \<noteq>
     250 + (\<Sum>k = 1..length [(1, 0) :: int \<times> rat]. of_nat k * GRAVITY)"
proof -
  have b: "birdRef (jump (initial None)) = \<lparr>bird_y = 250, velocity = - 8, rotation = - 20, frame = 0\<rparr>"
    by (simp add: jump_def initial_def init_bird_def Let_def JUMP_FORCE_def)
  show ?thesis
    by (simp add: session_start_playing gameLoop_playing update_bird_fields b GRAVITY_def)
qed

text \<open>
  Claim C5, amended: after \<open>N\<close> consecutive Playing ticks with no jump input, starting
  from any bird, the velocity is the starting velocity plus \<open>N\<close> times \<open>GRAVITY\<close>, and the
  position is the starting position plus the sum of the velocities after each of these
  ticks; on the first ticks of a session, which follow the jump that starts it, that is
  \<open>JUMP_FORCE\<close> plus \<open>N\<close> times \<open>GRAVITY\<close>, and 250 plus the sum of these velocities.
\<close>

theorem C5_euler_integration_from_any_bird:
  assumes "playing_through is s"
  shows "velocity (birdRef (ticks is s)) = velocity (birdRef s) + of_nat (length is) * GRAVITY \<and>
         bird_y (birdRef (ticks is s)) =
           bird_y (birdRef s) + (\<Sum>k = 1..length is. velocity (birdRef s) + of_nat k * GRAVITY) \<and>
         (\<not> gameStarted s0 \<and> \<not> gameOver s0 \<and> s = jump s0 \<longrightarrow>
            velocity (birdRef (ticks is s)) = JUMP_FORCE + of_nat (length is) * GRAVITY \<and>
            bird_y (birdRef (ticks is s)) =
              250 + (\<Sum>k = 1..length is. JUMP_FORCE + of_nat k * GRAVITY))"
proof -
  note a = bird_after_ticks [OF assms]
  have "velocity (birdRef (ticks is s)) = JUMP_FORCE + of_nat (length is) * GRAVITY \<and>
        bird_y (birdRef (ticks is s)) = 250 + (\<Sum>k = 1..length is. JUMP_FORCE + of_nat k * GRAVITY)"
    if "\<not> gameStarted s0" "\<not> gameOver s0" "s = jump s0"
    using a jump_idle(2) [OF that(1,2)] by (simp add: that(3))
  with a show ?thesis by blast
qed

theorem C5_euler_integration_from_any_bird_witness:
  "\<not> gameStarted (initial None) \<and> \<not> gameOver (initial None) \<and>
   playing_through [(1, 0), (2, 0), (3, 0)] (jump (initial None)) \<and>
   velocity (birdRef (jump (initial None))) = - 8 \<and>
   bird_y (birdRef (jump (initial None))) = 250 \<and>
   velocity (birdRef (ticks [(1, 0), (2, 0), (3, 0)] (jump (initial None)))) = - 13 / 2 \<and>
   bird_y (birdRef (ticks [(1, 0), (2, 0), (3, 0)] (jump (initial None)))) = 250 + (- 15 / 2 + - 7 + - 13 / 2)"
proof -
  have i: "\<not> gameStarted (initial None)" "\<not> gameOver (initial None)"
    by (simp_all add: initial_def)
  have p: "playing_through [(1, 0), (2, 0), (3, 0)] (jump (initial None))"
    by (simp add: session_start_playing)
  have b: "velocity (birdRef (jump (initial None))) = - 8" "bird_y (birdRef (jump (initial None))) = 250"
    by (simp_all add: jump_idle(2) [OF i] JUMP_FORCE_def)
  show ?thesis
    using i p b C5_euler_integration_from_any_bird [OF p, of "initial None"]
    by (simp add: GRAVITY_def JUMP_FORCE_def eval_nat_numeral)
qed

section \<open>Starting a session and never jumping again\<close>

lemma fall_y_bounds:
  shows "0 \<le> fall_y n" and "n \<le> 50 \<Longrightarrow> fall_y n \<le> 500"
proof -
  define x :: rat where "x = of_nat n"
  define q :: rat where "q = x * x - 31 * x"
  have x0: "0 \<le> x" by (simp add: x_def)
  have "0 \<le> (x - 31 / 2) * (x - 31 / 2)" by simp
  then have l: "0 \<le> q + 961 / 4" by (simp add: q_def algebra_simps)
  have f: "fall_y n = 250 + q / 4"
    by (simp add: fall_y_def x_def q_def field_simps)
  show "0 \<le> fall_y n" using l unfolding f by linarith
  assume "n \<le> 50"
  then have "x \<le> 50" by (simp add: x_def)
  with x0 have "0 \<le> (50 - x) * (x + 19)" by (intro mult_nonneg_nonneg) simp_all
  then have u: "q \<le> 950" by (simp add: q_def algebra_simps)
  show "fall_y n \<le> 500" using u unfolding f by linarith
qed

lemma fall_y_over: "n = 51 \<Longrightarrow> fall_y n = 505"
  by (simp add: fall_y_def)

lemma fall_y_Suc: "fall_y (Suc n) = fall_y n + (of_nat n - 15) / 2"
  by (simp add: fall_y_def field_simps)

lemma update_pipes_far:
  assumes "\<forall>p \<in> set ps. c \<le> pipe_x p"
  shows "\<forall>p \<in> set (update_pipes ps). c - PIPE_SPEED \<le> pipe_x p"
  using assms by (auto simp add: update_pipes_def)

lemma generate_pipes_far:
  assumes "\<forall>p \<in> set ps. c \<le> pipe_x p" "c \<le> CANVAS_WIDTH"
  shows "\<forall>p \<in> set (generate_pipes h r ps). c \<le> pipe_x p"
  using assms by (auto simp add: generate_pipes_def)

lemma far_pipes_no_hit:
  assumes "\<forall>p \<in> set ps. BIRD_WIDTH + 50 \<le> pipe_x p"
  shows "\<not> list_ex (pipe_hit b) ps"
  using assms by (auto simp add: list_ex_iff pipe_hit_def)

lemma fall_step:
  assumes pl: "playing t" and fs: "fall_state H n t" and n: "n \<le> 50"
  shows "fall_state H (Suc n) (gameLoop h r t)"
    and "gameOver (gameLoop h r t) = (CANVAS_HEIGHT < fall_y (Suc n))"
proof -
  have v: "velocity (birdRef (gameLoop h r t)) = - 8 + of_nat (Suc n) / 2"
    using fs by (simp add: fall_state_def gameLoop_playing [OF pl] update_bird_fields GRAVITY_def field_simps)
  have y: "bird_y (birdRef (gameLoop h r t)) = fall_y (Suc n)"
    using fs by (simp add: fall_state_def gameLoop_playing [OF pl] update_bird_fields GRAVITY_def fall_y_Suc)
  from fs have far: "\<forall>p \<in> set (pipesRef t). 800 - 3 * of_nat n \<le> pipe_x p"
    by (simp add: fall_state_def)
  have "\<forall>p \<in> set (generate_pipes h r (pipesRef t)). 800 - 3 * of_nat n \<le> pipe_x p"
    by (rule generate_pipes_far [OF far]) (simp add: CANVAS_WIDTH_def)
  from update_pipes_far [OF this]
  have far': "\<forall>p \<in> set (pipesRef (gameLoop h r t)). 800 - 3 * of_nat (Suc n) \<le> pipe_x p"
    by (simp add: gameLoop_playing [OF pl] PIPE_SPEED_def algebra_simps)
  have "(of_nat (Suc n) :: rat) \<le> 51" using n by (metis Suc_le_mono eval_nat_numeral(3) of_nat_le_iff of_nat_numeral)
  then have "(84::rat) \<le> 800 - 3 * of_nat (Suc n)" by simp
  with far' have beyond: "\<forall>p \<in> set (pipesRef (gameLoop h r t)). BIRD_WIDTH + 50 \<le> pipe_x p"
    by (auto simp add: BIRD_WIDTH_def)
  then have nohit: "\<not> list_ex (pipe_hit (birdRef (gameLoop h r t))) (pipesRef (gameLoop h r t))"
    by (rule far_pipes_no_hit)
  have "collision (birdRef (gameLoop h r t)) (pipesRef (gameLoop h r t)) = (CANVAS_HEIGHT < fall_y (Suc n))"
    using nohit fall_y_bounds(1) [of "Suc n"] by (auto simp add: collision_def out_of_bounds_def y)
  then show "gameOver (gameLoop h r t) = (CANVAS_HEIGHT < fall_y (Suc n))"
    using gameLoop_playing(2,3,4) [OF pl, of h r] by simp
  have "\<forall>p \<in> set (pipesRef (gameLoop h r t)). \<not> in_window p"
    using beyond by (auto simp add: in_window_def consts_defs)
  then have wc: "window_count (pipesRef (gameLoop h r t)) = 0"
    by (simp add: window_count_def)
  have sc: "score (gameLoop h r t) = 0"
    using gameLoop_playing(3,5) [OF pl, of h r] wc fs by (simp add: fall_state_def)
  have hs: "highScore (gameLoop h r t) = H"
    using gameLoop_highScore(1) [OF pl, of h r] wc fs by (simp add: fall_state_def)
  show "fall_state H (Suc n) (gameLoop h r t)"
    unfolding fall_state_def
    using gameLoop_playing(1) [OF pl, of h r] v y far' sc hs by simp
qed

lemma fall_invariant:
  assumes idle: "\<not> gameStarted s0" "\<not> gameOver s0"
    and len: "length is \<le> 50"
  shows "playing (ticks is (jump s0)) \<and> fall_state (highScore s0) (length is) (ticks is (jump s0))"
  using len
proof (induction "is" rule: rev_induct)
  case Nil
  show ?case
    using jump_idle [OF idle] by (simp add: fall_state_def fall_y_def JUMP_FORCE_def playing_def)
next
  case (snoc i "is")
  obtain h r where i: "i = (h, r)" by (cases i)
  from snoc.prems have n: "Suc (length is) \<le> 50" by simp
  then have n': "length is \<le> 50" by simp
  from snoc.IH [OF n']
  have pl: "playing (ticks is (jump s0))"
    and fs: "fall_state (highScore s0) (length is) (ticks is (jump s0))"
    by simp_all
  note st = fall_step [OF pl fs n', of h r]
  have "\<not> gameOver (gameLoop h r (ticks is (jump s0)))"
    using st(2) fall_y_bounds(2) [OF n] by (simp add: CANVAS_HEIGHT_def)
  with st(1) show ?case
    by (simp add: i ticks_snoc playing_def fall_state_def)
qed

lemma fall_over:
  assumes idle: "\<not> gameStarted s0" "\<not> gameOver s0"
    and len: "51 \<le> length is"
  shows "gameOver (ticks is (jump s0)) \<and> fall_state (highScore s0) 51 (ticks is (jump s0))"
proof -
  obtain h r where i: "is ! 50 = (h, r)" by (cases "is ! 50")
  from len have "is = take 50 is @ (h, r) # drop 51 is"
    using id_take_nth_drop [of 50 "is"] by (simp add: i)
  then have split: "ticks is (jump s0) = ticks (drop 51 is) (gameLoop h r (ticks (take 50 is) (jump s0)))"
    by (metis ticks_append ticks.simps(2))
  have l: "length (take 50 is) = 50" using len by simp
  from fall_invariant [OF idle, of "take 50 is"] l
  have pl: "playing (ticks (take 50 is) (jump s0))"
    and fs: "fall_state (highScore s0) 50 (ticks (take 50 is) (jump s0))"
    by simp_all
  note st = fall_step [OF pl fs, of h r]
  have go: "gameOver (gameLoop h r (ticks (take 50 is) (jump s0)))"
    using st(2) by (simp add: fall_y_over CANVAS_HEIGHT_def)
  then have "\<not> playing (gameLoop h r (ticks (take 50 is) (jump s0)))"
    by (simp add: playing_def)
  then have "ticks is (jump s0) = gameLoop h r (ticks (take 50 is) (jump s0))"
    by (simp add: split ticks_idle)
  with go st(1) show ?thesis by (simp add: eval_nat_numeral)
qed

lemma fall_y_rises_then_falls:
  "n < 15 \<Longrightarrow> fall_y (Suc n) < fall_y n"
  "n = 15 \<Longrightarrow> fall_y (Suc n) = fall_y n"
  "15 < n \<Longrightarrow> fall_y n < fall_y (Suc n)"
proof -
  show "fall_y (Suc n) < fall_y n" if "n < 15"
  proof -
    from that have "(of_nat n :: rat) < 15" by (metis of_nat_less_iff of_nat_numeral)
    then show ?thesis by (simp add: fall_y_Suc)
  qed
  show "fall_y (Suc n) = fall_y n" if "n = 15"
    using that by (simp add: fall_y_def)
  show "fall_y n < fall_y (Suc n)" if "15 < n"
  proof -
    from that have "(15 :: rat) < of_nat n" by (metis of_nat_less_iff of_nat_numeral)
    then show ?thesis by (simp add: fall_y_Suc)
  qed
qed

text \<open>
  Claim C6, as stated: in the trace that starts a session with the jump action and has no
  further input, the bird's vertical position strictly increases on every tick. The jump
  that starts the session also gives the bird its upward impulse, so the first tick moves
  the bird from 250 up to 242.5.
\<close>

theorem C6_first_tick_moves_bird_up:
  "playing (jump (initial None)) \<and>
   bird_y (birdRef (jump (initial None))) = 250 \<and>
   bird_y (birdRef (ticks [(0, 0)] (jump (initial None)))) = 485 / 2 \<and>
   \<not> bird_y (birdRef (jump (initial None))) < bird_y (birdRef (ticks [(0, 0)] (jump (initial None))))"
proof -
  have i: "\<not> gameStarted (initial None)" "\<not> gameOver (initial None)"
    by (simp_all add: initial_def)
  show ?thesis
    by (simp add: jump_idle [OF i] gameLoop_playing update_bird_fields consts_defs)
qed

text \<open>
  Claim C6, amended: in that trace, whatever the request identifiers and random values,
  the bird's vertical position strictly decreases on each of the first 15 ticks, is
  unchanged by the 16th, and from the 17th tick on strictly increases on every tick until
  it first exceeds the canvas height, which happens on the 51st tick; the session is in
  GameOver after a number of ticks if and only if that number is at least 51, so it goes
  to GameOver on the 51st tick and only then, and later ticks change nothing.
\<close>

theorem C6_rise_then_fall_to_game_over:
  assumes "\<not> gameStarted s0" and "\<not> gameOver s0"
  shows "gameOver (ticks is (jump s0)) = (51 \<le> length is) \<and>
         (length is < 15 \<longrightarrow>
            bird_y (birdRef (ticks (is @ [i]) (jump s0))) < bird_y (birdRef (ticks is (jump s0)))) \<and>
         (length is = 15 \<longrightarrow>
            bird_y (birdRef (ticks (is @ [i]) (jump s0))) = bird_y (birdRef (ticks is (jump s0)))) \<and>
         (15 < length is \<and> length is \<le> 50 \<longrightarrow>
            bird_y (birdRef (ticks is (jump s0))) < bird_y (birdRef (ticks (is @ [i]) (jump s0)))) \<and>
         (length is \<le> 50 \<longrightarrow> bird_y (birdRef (ticks is (jump s0))) \<le> CANVAS_HEIGHT) \<and>
         (51 \<le> length is \<longrightarrow>
            CANVAS_HEIGHT < bird_y (birdRef (ticks is (jump s0))) \<and>
            ticks (is @ [i]) (jump s0) = ticks is (jump s0))"
proof (cases "length is \<le> 50")
  case True
  obtain h r where i: "i = (h, r)" by (cases i)
  from fall_invariant [OF assms True]
  have pl: "playing (ticks is (jump s0))"
    and fs: "fall_state (highScore s0) (length is) (ticks is (jump s0))"
    by simp_all
  from fall_step(1) [OF pl fs True, of h r]
  have y': "bird_y (birdRef (ticks (is @ [i]) (jump s0))) = fall_y (Suc (length is))"
    by (simp add: i ticks_snoc fall_state_def)
  from fs have y: "bird_y (birdRef (ticks is (jump s0))) = fall_y (length is)"
    by (simp add: fall_state_def)
  have "\<not> gameOver (ticks is (jump s0))" using pl by (simp add: playing_def)
  moreover have "bird_y (birdRef (ticks is (jump s0))) \<le> CANVAS_HEIGHT"
    using fall_y_bounds(2) [OF True] by (simp add: y CANVAS_HEIGHT_def)
  ultimately show ?thesis
    using True fall_y_rises_then_falls [of "length is"] by (simp add: y y')
next
  case False
  then have len: "51 \<le> length is" by simp
  obtain h r where i: "i = (h, r)" by (cases i)
  from fall_over [OF assms len]
  have go: "gameOver (ticks is (jump s0))"
    and fs: "fall_state (highScore s0) 51 (ticks is (jump s0))"
    by simp_all
  from fs have y: "bird_y (birdRef (ticks is (jump s0))) = 505"
    by (simp add: fall_state_def fall_y_over)
  from go have "ticks (is @ [i]) (jump s0) = ticks is (jump s0)"
    by (simp add: i ticks_snoc gameLoop_idle playing_def)
  with go y len show ?thesis by (simp add: CANVAS_HEIGHT_def)
qed

theorem C6_rise_then_fall_to_game_over_witness:
  "\<not> gameStarted (initial None) \<and> \<not> gameOver (initial None) \<and>
   bird_y (birdRef (ticks (replicate 3 (0, 0) @ [(0, 0)]) (jump (initial None))))
     < bird_y (birdRef (ticks (replicate 3 (0, 0)) (jump (initial None)))) \<and>
   bird_y (birdRef (ticks (replicate 15 (0, 0) @ [(0, 0)]) (jump (initial None))))
     = bird_y (birdRef (ticks (replicate 15 (0, 0)) (jump (initial None)))) \<and>
   bird_y (birdRef (ticks (replicate 50 (0, 0)) (jump (initial None))))
     < bird_y (birdRef (ticks (replicate 50 (0, 0) @ [(0, 0)]) (jump (initial None)))) \<and>
   bird_y (birdRef (ticks (replicate 50 (0, 0)) (jump (initial None)))) \<le> CANVAS_HEIGHT \<and>
   \<not> gameOver (ticks (replicate 50 (0, 0)) (jump (initial None))) \<and>
   CANVAS_HEIGHT < bird_y (birdRef (ticks (replicate 51 (0, 0)) (jump (initial None)))) \<and>
   gameOver (ticks (replicate 51 (0, 0)) (jump (initial None))) \<and>
   ticks (replicate 51 (0, 0) @ [(0, 0)]) (jump (initial None)) = ticks (replicate 51 (0, 0)) (jump (initial None))"
proof -
  have i: "\<not> gameStarted (initial None)" "\<not> gameOver (initial None)"
    by (simp_all add: initial_def)
  have l: "length (replicate 3 ((0, 0) :: int \<times> rat)) = 3" "length (replicate 15 ((0, 0) :: int \<times> rat)) = 15"
    "length (replicate 50 ((0, 0) :: int \<times> rat)) = 50" "length (replicate 51 ((0, 0) :: int \<times> rat)) = 51"
    by (simp_all only: length_replicate)
  note a = C6_rise_then_fall_to_game_over [OF i, of "replicate 3 (0, 0)" "(0, 0)", unfolded l]
  note b = C6_rise_then_fall_to_game_over [OF i, of "replicate 15 (0, 0)" "(0, 0)", unfolded l]
  note c = C6_rise_then_fall_to_game_over [OF i, of "replicate 50 (0, 0)" "(0, 0)", unfolded l]
  note d = C6_rise_then_fall_to_game_over [OF i, of "replicate 51 (0, 0)" "(0, 0)", unfolded l]
  from a have a': "bird_y (birdRef (ticks (replicate 3 (0, 0) @ [(0, 0)]) (jump (initial None))))
     < bird_y (birdRef (ticks (replicate 3 (0, 0)) (jump (initial None))))" by linarith
  from b have b': "bird_y (birdRef (ticks (replicate 15 (0, 0) @ [(0, 0)]) (jump (initial None))))
     = bird_y (birdRef (ticks (replicate 15 (0, 0)) (jump (initial None))))" by blast
  from c have c': "bird_y (birdRef (ticks (replicate 50 (0, 0)) (jump (initial None))))
     < bird_y (birdRef (ticks (replicate 50 (0, 0) @ [(0, 0)]) (jump (initial None))))"
    "bird_y (birdRef (ticks (replicate 50 (0, 0)) (jump (initial None)))) \<le> CANVAS_HEIGHT"
    "\<not> gameOver (ticks (replicate 50 (0, 0)) (jump (initial None)))" by simp_all
  from d have d': "CANVAS_HEIGHT < bird_y (birdRef (ticks (replicate 51 (0, 0)) (jump (initial None))))"
   "gameOver (ticks (replicate 51 (0, 0)) (jump (initial None)))"
   "ticks (replicate 51 (0, 0) @ [(0, 0)]) (jump (initial None)) = ticks (replicate 51 (0, 0)) (jump (initial None))"
    by simp_all
  from i a' b' c' d' show ?thesis by blast
qed

section \<open>Reading the stored high score\<close>

lemma is_digit_digit_char: "d < 10 \<Longrightarrow> is_digit (digit_char d)"
  by (simp add: is_digit_def digit_char_def)

lemma digit_val_digit_char: "d < 10 \<Longrightarrow> digit_val (digit_char d) = d"
  by (simp add: digit_val_def digit_char_def)

lemma digit_not_special:
  assumes "is_digit c"
  shows "\<not> is_ws c" "c \<noteq> CHR ''-''" "c \<noteq> CHR ''+''"
  using assms by (auto simp add: is_digit_def is_ws_def)

lemma minus_not_ws: "\<not> is_ws CHR ''-''"
  by (simp add: is_ws_def)

lemma dec_value_snoc: "dec_value (ds @ [c]) = 10 * dec_value ds + digit_val c"
  by (simp add: dec_value_def)

lemma nat_digits_digits: "list_all is_digit (nat_digits n)"
proof (induction n rule: nat_digits.induct)
  case (1 n)
  show ?case
  proof (cases "n < 10")
    case True
    then show ?thesis by (subst nat_digits.simps) (simp add: is_digit_digit_char)
  next
    case False
    with 1 show ?thesis by (subst nat_digits.simps) (simp add: is_digit_digit_char)
  qed
qed

lemma nat_digits_nonempty: "nat_digits n \<noteq> []"
  by (subst nat_digits.simps) simp

lemma dec_value_nat_digits: "dec_value (nat_digits n) = n"
proof (induction n rule: nat_digits.induct)
  case (1 n)
  show ?case
  proof (cases "n < 10")
    case True
    then show ?thesis
      by (subst nat_digits.simps) (simp add: dec_value_def digit_val_digit_char)
  next
    case False
    with 1 show ?thesis
      by (subst nat_digits.simps) (simp add: dec_value_snoc digit_val_digit_char)
  qed
qed

lemma takeWhile_digits: "list_all is_digit cs \<Longrightarrow> takeWhile is_digit cs = cs"
  by (simp add: list_all_iff)

lemma parseInt10_int_string:
  assumes "is_int_string s"
  shows "parseInt10 s = Num (int_of_string s)"
proof -
  from assms obtain c cs where s: "s = c # cs"
    by (cases s) (simp_all add: is_int_string_def)
  show ?thesis
  proof (cases "c = CHR ''-''")
    case True
    with assms s have cs: "cs \<noteq> []" "list_all is_digit cs"
      by (simp_all add: is_int_string_def)
    with True show ?thesis
      by (simp add: parseInt10_def s minus_not_ws int_of_string_def Let_def takeWhile_digits)
  next
    case False
    with assms s have d: "list_all is_digit (c # cs)"
      by (simp add: is_int_string_def)
    then have c: "is_digit c" by simp
    from d have "list_all is_digit cs" by simp
    with False c digit_not_special [OF c] show ?thesis
      by (simp add: parseInt10_def s int_of_string_def Let_def takeWhile_digits)
  qed
qed

lemma toString_int_string: "is_int_string (toString n)"
proof (cases "n < 0")
  case True
  then show ?thesis
    by (simp add: toString_def is_int_string_def nat_digits_nonempty nat_digits_digits)
next
  case False
  obtain c cs where d: "nat_digits (nat n) = c # cs"
    using nat_digits_nonempty [of "nat n"] by (cases "nat_digits (nat n)") auto
  have a: "list_all is_digit (c # cs)"
    using nat_digits_digits [of "nat n"] by (simp add: d)
  then have "c \<noteq> CHR ''-''" using digit_not_special(2) [of c] by auto
  with False a show ?thesis
    by (simp add: toString_def is_int_string_def d)
qed

lemma int_of_string_toString: "int_of_string (toString n) = n"
proof (cases "n < 0")
  case True
  then show ?thesis
    by (simp add: toString_def int_of_string_def dec_value_nat_digits)
next
  case False
  obtain c cs where d: "nat_digits (nat n) = c # cs"
    using nat_digits_nonempty [of "nat n"] by (cases "nat_digits (nat n)") auto
  have "is_digit c"
    using nat_digits_digits [of "nat n"] by (simp add: d)
  then have "c \<noteq> CHR ''-''" using digit_not_special(2) [of c] by auto
  moreover have "dec_value (c # cs) = nat n"
    using dec_value_nat_digits [of "nat n"] by (simp add: d)
  ultimately show ?thesis using False
    by (simp add: toString_def int_of_string_def d)
qed

lemma parseInt10_no_integer:
  assumes "t \<noteq> []" "\<not> is_ws (hd t)" "hd t \<noteq> CHR ''-''" "hd t \<noteq> CHR ''+''" "\<not> is_digit (hd t)"
  shows "parseInt10 t = NaN"
proof -
  from assms(1) obtain c cs where t: "t = c # cs" by (cases t) auto
  with assms show ?thesis
    by (simp add: parseInt10_def Let_def)
qed

text \<open>
  Claim C7, as stated: a stored string that is absent or malformed gives the high score
  zero. The initialiser falls back to zero only when the string is absent or empty; any
  other string goes to \<^verbatim>\<open>parseInt\<close>, which answers \<open>NaN\<close> for \<^verbatim>\<open>"abc"\<close>.
\<close>

theorem C7_malformed_string_gives_NaN:
  "\<not> is_int_string ''abc'' \<and> initial_highScore (Some ''abc'') = NaN \<and>
   initial_highScore (Some ''abc'') \<noteq> Num 0"
  by (simp add: is_int_string_def is_digit_def initial_highScore_def parseInt10_def is_ws_def Let_def)

text \<open>
  Claim C7, amended: the high score is initialised to zero when the stored string is absent
  or empty; to the integer the string denotes when it is a base-10 integer string and
  that integer is at most \<open>2 ^ 53\<close> in magnitude, so the string the game writes for such an
  integer reads back as that integer; and to \<open>NaN\<close>, not zero, when the string starts with
  a character that is neither white space, a sign nor a digit. Beyond \<open>2 ^ 53\<close> the source
  holds the nearest double, not the integer.
\<close>

theorem C7_initial_high_score:
  "initial_highScore None = Num 0 \<and>
   initial_highScore (Some []) = Num 0 \<and>
   (is_int_string s \<and> \<bar>int_of_string s\<bar> \<le> 2 ^ 53 \<longrightarrow>
      initial_highScore (Some s) = Num (int_of_string s)) \<and>
   (\<bar>n\<bar> \<le> 2 ^ 53 \<longrightarrow> initial_highScore (Some (toString n)) = Num n) \<and>
   (t \<noteq> [] \<and> \<not> is_ws (hd t) \<and> hd t \<noteq> CHR ''-'' \<and> hd t \<noteq> CHR ''+'' \<and> \<not> is_digit (hd t)
      \<longrightarrow> initial_highScore (Some t) = NaN)"
proof -
  have a: "is_int_string s \<Longrightarrow> initial_highScore (Some s) = Num (int_of_string s)" for s
    by (cases s) (simp_all add: initial_highScore_def parseInt10_int_string is_int_string_def)
  have "initial_highScore (Some (toString n)) = Num n"
    using a [OF toString_int_string, of n] by (simp add: int_of_string_toString)
  moreover have "initial_highScore (Some t) = NaN"
    if "t \<noteq> []" "\<not> is_ws (hd t)" "hd t \<noteq> CHR ''-''" "hd t \<noteq> CHR ''+''" "\<not> is_digit (hd t)"
    using that by (simp add: initial_highScore_def parseInt10_no_integer)
  ultimately show ?thesis
    using a by (simp add: initial_highScore_def)
qed

theorem C7_initial_high_score_witness:
  "is_int_string ''-42'' \<and> \<bar>int_of_string ''-42''\<bar> \<le> 2 ^ 53 \<and>
   initial_highScore (Some ''-42'') = Num (- 42) \<and>
   \<bar>17 :: int\<bar> \<le> 2 ^ 53 \<and> toString 17 = ''17'' \<and> initial_highScore (Some ''17'') = Num 17 \<and>
   initial_highScore (Some ''abc'') = NaN"
proof -
  have i: "is_int_string ''-42''" by (simp add: is_int_string_def is_digit_def)
  have v: "int_of_string ''-42'' = - 42"
    by (simp add: int_of_string_def dec_value_def digit_val_def)
  have s: "toString 17 = ''17''"
    by code_simp
  have n: "''abc'' \<noteq> [] \<and> \<not> is_ws (hd ''abc'') \<and> hd ''abc'' \<noteq> CHR ''-'' \<and> hd ''abc'' \<noteq> CHR ''+'' \<and> \<not> is_digit (hd ''abc'')"
    by (simp add: is_ws_def is_digit_def)
  from C7_initial_high_score [of "''-42''" 17 "''abc''"] i v s n show ?thesis
    by simp
qed

section \<open>Scoring\<close>

lemma generate_pipes_spawns:
  "generate_pipes h r ps = (if spawns h then ps @ [new_pipe r] else ps)"
  by (simp add: generate_pipes_def spawns_def new_pipe_def)

lemma update_pipes_append: "update_pipes (ps @ qs) = update_pipes ps @ update_pipes qs"
  by (simp add: update_pipes_def)

lemma update_pipes_Nil: "update_pipes [] = []"
  by (simp add: update_pipes_def)

lemma age_alive: "(- PIPE_WIDTH < CANVAS_WIDTH - PIPE_SPEED * of_nat a) = (a < 284)"
proof -
  have "(- PIPE_WIDTH < CANVAS_WIDTH - PIPE_SPEED * of_nat a) = ((of_nat (3 * a) :: rat) < of_nat 852)"
    by (simp add: consts_defs)
  also have "\<dots> = (3 * a < 852)" by (simp only: of_nat_less_iff)
  also have "\<dots> = (a < 284)" by auto
  finally show ?thesis .
qed

lemma age_in_window: "in_window (aged_pipe a r) = (a = 268)"
proof -
  have "in_window (aged_pipe a r)
        = ((of_nat 802 :: rat) < of_nat (3 * a) \<and> (of_nat (3 * a) :: rat) < of_nat 805)"
    by (auto simp add: in_window_def aged_pipe_def consts_defs)
  also have "\<dots> = (802 < 3 * a \<and> 3 * a < 805)" by (simp only: of_nat_less_iff)
  also have "\<dots> = (a = 268)" by auto
  finally show ?thesis .
qed

lemma update_pipes_single:
  "update_pipes [aged_pipe a r] = (if a < 284 then [aged_pipe (Suc a) r] else [])"
proof -
  have e: "CANVAS_WIDTH - PIPE_SPEED * of_nat a - PIPE_SPEED = CANVAS_WIDTH - PIPE_SPEED * of_nat (Suc a)"
    by (simp add: algebra_simps)
  show ?thesis
  proof (cases "a < 284")
    case True
    with age_alive [of a] show ?thesis by (simp add: update_pipes_def aged_pipe_def e)
  next
    case False
    with age_alive [of a] show ?thesis by (simp add: update_pipes_def aged_pipe_def)
  qed
qed

lemma new_pipe_aged: "new_pipe r = aged_pipe 0 r"
  by (simp add: new_pipe_def aged_pipe_def)

lemma update_pipes_aged: "update_pipes (aged_pipes L a) = aged_pipes L (Suc a)"
proof (induction L a rule: aged_pipes.induct)
  case (1 a)
  show ?case by (simp add: update_pipes_Nil)
next
  case (2 h r older a)
  have "(Suc a \<le> 284 \<and> Suc a < 284) = (Suc (Suc a) \<le> 284)" by auto
  with 2 show ?case
    by (simp add: update_pipes_append update_pipes_single update_pipes_Nil)
qed

lemma tick_aged:
  "update_pipes (generate_pipes h r (aged_pipes L 0)) = aged_pipes ((h, r) # L) 0"
  by (simp add: generate_pipes_spawns update_pipes_append update_pipes_aged new_pipe_aged update_pipes_single)

lemma run_append: "run (es @ fs) s = run fs (run es s)"
  by (induction es arbitrary: s) simp_all

lemma run_snoc: "run (es @ [e]) s = step e (run es s)"
  by (simp add: run_append)

lemma running_append: "running (es @ fs) s = (running es s \<and> running fs (run es s))"
  by (induction es arbitrary: s) auto

lemma running_snoc: "running (es @ [e]) s = (running es s \<and> playing (run es s) \<and> e \<noteq> Reset)"
  by (simp add: running_append)

lemma tick_inputs_append: "tick_inputs (es @ fs) = tick_inputs es @ tick_inputs fs"
  by (induction es rule: tick_inputs.induct) simp_all

lemma jump_playing:
  assumes "playing s"
  shows "pipesRef (jump s) = pipesRef s" and "score (jump s) = score s"
    and "highScore (jump s) = highScore s" and "storage (jump s) = storage s"
    and "playing (jump s)"
    and "birdRef (jump s) = (birdRef s)\<lparr>velocity := JUMP_FORCE, rotation := - 20\<rparr>"
  using assms by (simp_all add: jump_def playing_def Let_def)

lemma session_pipes:
  assumes "pipesRef s0 = []"
  shows "running es s0 \<Longrightarrow> pipesRef (run es s0) = aged_pipes (rev (tick_inputs es)) 0"
proof (induction es rule: rev_induct)
  case Nil
  show ?case by (simp add: assms)
next
  case (snoc e es)
  from snoc.prems have r: "running es s0" and pl: "playing (run es s0)" and e: "e \<noteq> Reset"
    by (simp_all add: running_snoc)
  note ih = snoc.IH [OF r]
  show ?case
  proof (cases e)
    case (Tick h r)
    then show ?thesis
      by (simp add: run_snoc tick_inputs_append gameLoop_playing(3) [OF pl] ih tick_aged)
  next
    case Jump
    then show ?thesis
      by (simp add: run_snoc tick_inputs_append jump_playing(1) [OF pl] ih)
  next
    case Reset
    with e show ?thesis by simp
  qed
qed

lemma aged_pipes_in_window:
  "filter in_window (aged_pipes L a) =
     (if a < 268 \<and> 267 - a < length L \<and> spawns (fst (L ! (267 - a)))
      then [aged_pipe 268 (snd (L ! (267 - a)))]
      else [])"
proof (induction L a rule: aged_pipes.induct)
  case (1 a)
  show ?case by simp
next
  case (2 h r older a)
  consider "a = 267" | "a < 267" | "268 \<le> a" by linarith
  then show ?case
  proof cases
    case 1
    with 2 show ?thesis
      by (simp add: age_in_window)
  next
    case 2
    then have s: "267 - a = Suc (267 - Suc a)" by simp
    have "(267 - Suc a < length older) = (267 - a < Suc (length older))"
      using 2 by auto
    moreover have "((h, r) # older) ! (267 - a) = older ! (267 - Suc a)"
      by (subst s) simp
    moreover have "Suc a \<noteq> 268" "Suc a < 268" "a < 268" using 2 by simp_all
    ultimately show ?thesis
      using "2.IH" by (simp add: age_in_window)
  next
    case 3
    then have "Suc a \<noteq> 268" "\<not> Suc a < 268" "\<not> a < 268" by simp_all
    then show ?thesis
      using "2.IH" by (simp add: age_in_window)
  qed
qed

lemma session_tick:
  assumes "pipesRef s0 = []" and "running (es @ [Tick h r]) s0"
  shows "score (run (es @ [Tick h r]) s0) =
           score (run es s0) +
           (if 267 \<le> length (tick_inputs es) \<and>
               spawns (fst (tick_inputs es ! (length (tick_inputs es) - 267)))
            then 1 else 0) \<and>
         filter in_window (pipesRef (run (es @ [Tick h r]) s0)) =
           (if 267 \<le> length (tick_inputs es) \<and>
               spawns (fst (tick_inputs es ! (length (tick_inputs es) - 267)))
            then [\<lparr>pipe_x = - 4,
                    topHeight = topHeight (new_pipe (snd (tick_inputs es ! (length (tick_inputs es) - 267))))\<rparr>]
            else [])"
proof -
  define L where "L = (h, r) # rev (tick_inputs es)"
  define n where "n = length (tick_inputs es)"
  from assms(2) have pl: "playing (run es s0)" by (simp add: running_snoc)
  have p: "pipesRef (run (es @ [Tick h r]) s0) = aged_pipes L 0"
    using session_pipes [OF assms] by (simp add: tick_inputs_append L_def)
  have len: "(267 < length L) = (267 \<le> n)" by (auto simp add: L_def n_def)
  have nth: "L ! 267 = tick_inputs es ! (n - 267)" if "267 \<le> n"
  proof -
    have "L ! 267 = rev (tick_inputs es) ! 266" by (simp add: L_def)
    also have "\<dots> = tick_inputs es ! (n - Suc 266)"
      using that unfolding n_def by (intro rev_nth) simp
    finally show ?thesis by simp
  qed
  have x: "aged_pipe 268 q = \<lparr>pipe_x = - 4, topHeight = topHeight (new_pipe q)\<rparr>" for q
    by (simp add: aged_pipe_def consts_defs)
  have w: "filter in_window (pipesRef (run (es @ [Tick h r]) s0)) =
           (if 267 \<le> n \<and> spawns (fst (tick_inputs es ! (n - 267)))
            then [\<lparr>pipe_x = - 4, topHeight = topHeight (new_pipe (snd (tick_inputs es ! (n - 267))))\<rparr>]
            else [])"
  proof (cases "267 \<le> n")
    case True
    with nth [OF True] show ?thesis
      by (simp add: p aged_pipes_in_window [of L 0] len x)
  next
    case False
    then show ?thesis
      by (simp add: p aged_pipes_in_window [of L 0] len)
  qed
  have "score (run (es @ [Tick h r]) s0) =
          score (run es s0) + window_count (pipesRef (run (es @ [Tick h r]) s0))"
    using gameLoop_playing(3,5) [OF pl, of h r] by (simp add: run_snoc)
  also have "window_count (pipesRef (run (es @ [Tick h r]) s0)) =
          (if 267 \<le> n \<and> spawns (fst (tick_inputs es ! (n - 267))) then 1 else 0)"
    unfolding window_count_def w by simp
  finally show ?thesis using w by (simp add: n_def)
qed

subsection \<open>A flight that keeps the session going\<close>

lemma fall_y_arc:
  assumes "n \<le> 31"
  shows "189 \<le> fall_y n" and "fall_y n \<le> 250"
proof -
  define x :: rat where "x = of_nat n"
  define q :: rat where "q = x * x - 31 * x"
  have x0: "0 \<le> x" by (simp add: x_def)
  have "(of_nat n :: rat) \<le> of_nat 31" using assms by (simp only: of_nat_le_iff)
  then have x1: "x \<le> 31" by (simp add: x_def)
  have "0 \<le> (x - 31 / 2) * (x - 31 / 2)" by simp
  then have l: "0 \<le> q + 961 / 4" by (simp add: q_def algebra_simps)
  from x0 x1 have "0 \<le> x * (31 - x)" by (intro mult_nonneg_nonneg) simp_all
  then have u: "q \<le> 0" by (simp add: q_def algebra_simps)
  have f: "fall_y n = 250 + q / 4"
    by (simp add: fall_y_def x_def q_def field_simps)
  show "189 \<le> fall_y n" using l unfolding f by linarith
  show "fall_y n \<le> 250" using u unfolding f by linarith
qed

lemma fall_y_31: "fall_y 31 = 250"
  by (simp add: fall_y_def)

lemma safe_pipe_no_hit:
  assumes "safe_pipe p" "189 \<le> bird_y b" "bird_y b \<le> 250"
  shows "\<not> pipe_hit b p"
  using assms by (auto simp add: safe_pipe_def pipe_hit_def consts_defs)

lemma safe_pipes_update: "list_all safe_pipe ps \<Longrightarrow> list_all safe_pipe (update_pipes ps)"
  by (induction ps) (simp_all add: update_pipes_def safe_pipe_def)

lemma safe_pipes_generate:
  "list_all safe_pipe ps \<Longrightarrow> safe_pipe (new_pipe r) \<Longrightarrow> list_all safe_pipe (generate_pipes h r ps)"
  by (simp add: generate_pipes_spawns)

lemma arc_run:
  assumes st: "arc_start s"
  shows "list_all safe_tick ts \<Longrightarrow> length ts \<le> 31 \<Longrightarrow>
         running ts s \<and> playing (run ts s) \<and>
         bird_y (birdRef (run ts s)) = fall_y (length ts) \<and>
         velocity (birdRef (run ts s)) = - 8 + of_nat (length ts) / 2 \<and>
         list_all safe_pipe (pipesRef (run ts s))"
proof (induction ts rule: rev_induct)
  case Nil
  from st show ?case by (simp add: arc_start_def fall_y_def JUMP_FORCE_def)
next
  case (snoc e ts)
  from snoc.prems have sf: "list_all safe_tick ts" and e: "safe_tick e"
    and n: "Suc (length ts) \<le> 31" by simp_all
  from n have n': "length ts \<le> 31" by simp
  from e obtain h r where t: "e = Tick h r" and r: "safe_pipe (new_pipe r)"
    by (cases e) simp_all
  define u where "u = run ts s"
  from snoc.IH [OF sf n', folded u_def]
  have run: "running ts s" and pl: "playing u"
    and y: "bird_y (birdRef u) = fall_y (length ts)"
    and v: "velocity (birdRef u) = - 8 + of_nat (length ts) / 2"
    and sp: "list_all safe_pipe (pipesRef u)"
    by simp_all
  have y': "bird_y (birdRef (gameLoop h r u)) = fall_y (Suc (length ts))"
    by (simp add: gameLoop_playing [OF pl] update_bird_fields y v GRAVITY_def fall_y_Suc)
  have v': "velocity (birdRef (gameLoop h r u)) = - 8 + of_nat (Suc (length ts)) / 2"
    by (simp add: gameLoop_playing [OF pl] update_bird_fields v GRAVITY_def field_simps)
  have sp': "list_all safe_pipe (pipesRef (gameLoop h r u))"
    by (simp add: gameLoop_playing [OF pl] safe_pipes_update safe_pipes_generate sp r)
  note b = fall_y_arc [OF n]
  have "\<not> list_ex (pipe_hit (birdRef (gameLoop h r u))) (pipesRef (gameLoop h r u))"
    using sp' b safe_pipe_no_hit [of _ "birdRef (gameLoop h r u)"]
    by (auto simp add: list_ex_iff list_all_iff y')
  moreover have "\<not> out_of_bounds (birdRef (gameLoop h r u))"
    using b by (simp add: out_of_bounds_def y' CANVAS_HEIGHT_def)
  ultimately have "\<not> collision (birdRef (gameLoop h r u)) (pipesRef (gameLoop h r u))"
    by (simp add: collision_def)
  then have "\<not> gameOver (gameLoop h r u)"
    using gameLoop_playing(2,3,4) [OF pl, of h r] by simp
  then have pl': "playing (gameLoop h r u)"
    using gameLoop_playing(1) [OF pl, of h r] by (simp add: playing_def)
  from run pl pl' y' v' sp' show ?case
    by (simp add: t run_snoc running_snoc u_def)
qed

lemma cycle_run:
  assumes "arc_start s" "list_all safe_tick ts" "length ts = 31"
  shows "running (ts @ [Jump]) s \<and> arc_start (run (ts @ [Jump]) s)"
proof -
  from arc_run [OF assms(1,2)] assms(3)
  have run: "running ts s" and pl: "playing (run ts s)"
    and y: "bird_y (birdRef (run ts s)) = 250"
    and sp: "list_all safe_pipe (pipesRef (run ts s))"
    by (simp_all add: fall_y_31)
  from run pl y sp jump_playing [OF pl] show ?thesis
    by (simp add: running_snoc run_snoc arc_start_def)
qed

lemma cycles_run:
  assumes "\<forall>c \<in> set cs. \<exists>ts. c = ts @ [Jump] \<and> list_all safe_tick ts \<and> length ts = 31"
  shows "arc_start s \<Longrightarrow> running (concat cs) s \<and> arc_start (run (concat cs) s)"
  using assms
proof (induction cs arbitrary: s)
  case Nil
  then show ?case by simp
next
  case (Cons c cs)
  from Cons.prems(2) obtain ts where c: "c = ts @ [Jump]"
    and ts: "list_all safe_tick ts" "length ts = 31" by auto
  from cycle_run [OF Cons.prems(1) ts]
  have r: "running c s" and a: "arc_start (run c s)" by (simp_all add: c)
  from Cons.prems(2) have "\<forall>c \<in> set cs. \<exists>ts. c = ts @ [Jump] \<and> list_all safe_tick ts \<and> length ts = 31"
    by simp
  from Cons.IH [OF a this] r show ?case
    by (simp add: running_append run_append)
qed

lemma arc_start_jump:
  assumes "\<not> gameStarted s" "\<not> gameOver s"
  shows "arc_start (jump s)"
  using jump_idle [OF assms] by (simp add: arc_start_def)

lemma safe_ticks_map: "safe_pipe (new_pipe r) \<Longrightarrow> list_all safe_tick (map (\<lambda>k. Tick (f k) r) ks)"
  by (induction ks) simp_all

lemma flight_running:
  assumes "arc_start s" and "safe_pipe (new_pipe r)"
    and "list_all safe_tick ts" and "length ts \<le> 12"
  shows "running (flight r @ ts) s"
proof -
  define cs where "cs = map (\<lambda>c. cycle (99 + 31 * int c) r) [0..<8]"
  define arc where "arc = map (\<lambda>k. Tick (347 + int k) r) [0..<19] @ ts"
  have "\<forall>c \<in> set cs. \<exists>ts. c = ts @ [Jump] \<and> list_all safe_tick ts \<and> length ts = 31"
    using safe_ticks_map [OF assms(2)] by (auto simp add: cs_def cycle_def)
  from cycles_run [OF this assms(1)]
  have r: "running (concat cs) s" and a: "arc_start (run (concat cs) s)" by simp_all
  have "list_all safe_tick arc" "length arc \<le> 31"
    using safe_ticks_map [OF assms(2)] assms(3,4) by (simp_all add: arc_def)
  from arc_run [OF a this] have "running arc (run (concat cs) s)" by simp
  with r have "running (concat cs @ arc) s" by (simp add: running_append)
  then show ?thesis by (simp add: flight_def cs_def arc_def)
qed

lemma tick_inputs_map: "tick_inputs (map (\<lambda>k. Tick (f k) r) ks) = map (\<lambda>k. (f k, r)) ks"
  by (induction ks) simp_all

lemma tick_inputs_cycle: "tick_inputs (cycle h0 r) = map (\<lambda>k. (h0 + int k, r)) [0..<31]"
  by (simp add: cycle_def tick_inputs_append tick_inputs_map)

lemma tick_inputs_cycles:
  "length (tick_inputs (concat (map (\<lambda>c. cycle (f c) r) cs))) = 31 * length cs"
  by (induction cs) (simp_all add: tick_inputs_append tick_inputs_cycle)

lemma flight_ticks:
  "length (tick_inputs (flight r)) = 267"
  "tick_inputs (flight r) ! 0 = (99, r)"
  "tick_inputs (flight r) ! 1 = (100, r)"
proof -
  show "length (tick_inputs (flight r)) = 267"
    by (simp add: flight_def tick_inputs_append tick_inputs_cycles tick_inputs_map)
  have "[0..<8] = 0 # [1..<8]" by (simp add: upt_conv_Cons)
  moreover have "[0..<31] = 0 # 1 # [2..<31]" by (simp add: upt_conv_Cons)
  ultimately have "\<exists>rest. tick_inputs (flight r) = (99, r) # (100, r) # rest"
    by (simp add: flight_def tick_inputs_append tick_inputs_cycle)
  then show "tick_inputs (flight r) ! 0 = (99, r)" "tick_inputs (flight r) ! 1 = (100, r)"
    by auto
qed

lemma session_score_before:
  assumes "pipesRef s0 = []"
  shows "running es s0 \<Longrightarrow> length (tick_inputs es) \<le> 267 \<Longrightarrow> score (run es s0) = score s0"
proof (induction es rule: rev_induct)
  case Nil
  show ?case by simp
next
  case (snoc e es)
  from snoc.prems have r: "running es s0" and pl: "playing (run es s0)"
    by (simp_all add: running_snoc)
  from snoc.prems(2) have l: "length (tick_inputs es) \<le> 267"
    by (simp add: tick_inputs_append)
  note ih = snoc.IH [OF r l]
  show ?case
  proof (cases e)
    case (Tick h r)
    with snoc.prems(2) have "\<not> 267 \<le> length (tick_inputs es)"
      by (simp add: tick_inputs_append)
    with session_tick [OF assms snoc.prems(1) [unfolded Tick]] ih show ?thesis
      by (simp add: Tick)
  next
    case Jump
    with ih jump_playing(2) [OF pl] show ?thesis by (simp add: run_snoc)
  next
    case Reset
    with snoc.prems(1) show ?thesis by (simp add: running_snoc)
  qed
qed

lemma safe_two_fifths: "safe_pipe (new_pipe (2 / 5))" "topHeight (new_pipe (2 / 5)) = 150"
  by (simp_all add: safe_pipe_def new_pipe_def consts_defs)

lemma initial_idle: "\<not> gameStarted (initial saved)" "\<not> gameOver (initial saved)"
  by (simp_all add: initial_def)

text \<open>
  Claim C2. In a session, which starts with an empty pipe list, let a call of \<^verbatim>\<open>gameLoop\<close>
  run while the session is Playing after any inputs that kept it going. The call raises
  the score by one if a pipe was added 267 calls of \<^verbatim>\<open>gameLoop\<close> earlier, and by nothing
  otherwise; in the first case the pipes in the scoring window after the call are that
  pipe alone, moved 268 times to \<open>pipe_x = - 4\<close>, its trailing edge having just gone from
  51 to 48 across the bird's abscissa 50. So every pipe added during a session is scored
  on exactly one tick, the one of its crossing, if the session lasts until then, and on
  no other.
\<close>

theorem C2_each_pipe_scored_once_at_crossing:
  assumes "pipesRef s0 = []" and "running (es @ [Tick h r]) s0"
  shows "score (run (es @ [Tick h r]) s0) =
           score (run es s0) +
           (if 267 \<le> length (tick_inputs es) \<and>
               spawns (fst (tick_inputs es ! (length (tick_inputs es) - 267)))
            then 1 else 0) \<and>
         filter in_window (pipesRef (run (es @ [Tick h r]) s0)) =
           (if 267 \<le> length (tick_inputs es) \<and>
               spawns (fst (tick_inputs es ! (length (tick_inputs es) - 267)))
            then [\<lparr>pipe_x = - 4,
                    topHeight = topHeight (new_pipe (snd (tick_inputs es ! (length (tick_inputs es) - 267))))\<rparr>]
            else [])"
  using assms by (rule session_tick)

theorem C2_each_pipe_scored_once_at_crossing_witness:
  "pipesRef (jump (initial None)) = [] \<and>
   running (flight (2 / 5) @ [Tick 366 (2 / 5)]) (jump (initial None)) \<and>
   running ((flight (2 / 5) @ [Tick 366 (2 / 5)]) @ [Tick 367 (2 / 5)]) (jump (initial None)) \<and>
   score (run (flight (2 / 5)) (jump (initial None))) = 0 \<and>
   score (run (flight (2 / 5) @ [Tick 366 (2 / 5)]) (jump (initial None))) = 1 \<and>
   filter in_window (pipesRef (run (flight (2 / 5) @ [Tick 366 (2 / 5)]) (jump (initial None))))
     = [\<lparr>pipe_x = - 4, topHeight = 150\<rparr>] \<and>
   score (run ((flight (2 / 5) @ [Tick 366 (2 / 5)]) @ [Tick 367 (2 / 5)]) (jump (initial None))) = 1 \<and>
   filter in_window (pipesRef (run ((flight (2 / 5) @ [Tick 366 (2 / 5)]) @ [Tick 367 (2 / 5)]) (jump (initial None)))) = []"
proof -
  define s0 where "s0 = jump (initial None)"
  define f where "f = flight (2 / 5)"
  have p: "pipesRef s0 = []" and sc0: "score s0 = 0"
    using jump_idle [OF initial_idle, of None] by (simp_all add: s0_def)
  have a: "arc_start s0"
    unfolding s0_def by (rule arc_start_jump [OF initial_idle])
  have r1: "running (f @ [Tick 366 (2 / 5)]) s0"
    unfolding f_def by (rule flight_running [OF a safe_two_fifths(1)]) (simp_all add: safe_two_fifths)
  have r2: "running ((f @ [Tick 366 (2 / 5)]) @ [Tick 367 (2 / 5)]) s0"
    using flight_running [OF a safe_two_fifths(1), of "[Tick 366 (2 / 5), Tick 367 (2 / 5)]"]
    by (simp add: safe_two_fifths f_def)
  from r1 have r0: "running f s0" by (simp add: running_snoc)
  have l: "length (tick_inputs f) = 267" and h: "tick_inputs f ! 0 = (99, 2 / 5)"
    by (simp_all add: f_def flight_ticks)
  have h1: "tick_inputs f ! 1 = (100, 2 / 5)"
    unfolding f_def by (rule flight_ticks(3))
  have l': "length (tick_inputs (f @ [Tick 366 (2 / 5)])) = 268"
    by (simp add: tick_inputs_append l)
  have h': "tick_inputs (f @ [Tick 366 (2 / 5)]) ! Suc 0 = (100, 2 / 5)"
    using h1 l by (simp add: tick_inputs_append nth_append)
  have sp: "spawns 99" "\<not> spawns 100" by (simp_all add: spawns_def)
  have z: "score (run f s0) = 0"
    using session_score_before [OF p r0] l sc0 by simp
  from C2_each_pipe_scored_once_at_crossing [OF p r1] have one: "score (run (f @ [Tick 366 (2 / 5)]) s0) = 1"
    and w: "filter in_window (pipesRef (run (f @ [Tick 366 (2 / 5)]) s0)) = [\<lparr>pipe_x = - 4, topHeight = 150\<rparr>]"
    by (simp_all add: l h sp z safe_two_fifths)
  from C2_each_pipe_scored_once_at_crossing [OF p r2] have two: "score (run ((f @ [Tick 366 (2 / 5)]) @ [Tick 367 (2 / 5)]) s0) = 1"
    and w2: "filter in_window (pipesRef (run ((f @ [Tick 366 (2 / 5)]) @ [Tick 367 (2 / 5)]) s0)) = []"
    by (simp_all add: l' h' sp one)
  from p r1 r2 z one w two w2 show ?thesis
    by (simp add: s0_def f_def)
qed

section \<open>The high score\<close>

lemma initial_highScore_toString: "initial_highScore (Some (toString n)) = Num n"
proof -
  have "is_int_string (toString n)" by (rule toString_int_string)
  moreover from this have "toString n \<noteq> []" by (auto simp add: is_int_string_def)
  ultimately show ?thesis
    by (simp add: initial_highScore_def parseInt10_int_string int_of_string_toString)
qed

lemma step_highScore_cases:
  "(highScore (step e s) = highScore s \<and> storage (step e s) = storage s) \<or>
   (js_gt (score (step e s)) (highScore s) \<and>
    highScore (step e s) = Num (score (step e s)) \<and>
    storage (step e s) = Some (toString (score (step e s))))"
proof (cases e)
  case (Tick h r)
  show ?thesis
  proof (cases "playing s")
    case True
    from gameLoop_highScore [OF True, of h r] show ?thesis
      by (simp add: Tick)
  next
    case False
    then show ?thesis by (simp add: Tick gameLoop_idle)
  qed
next
  case Jump
  then show ?thesis by (simp add: jump_def Let_def)
next
  case Reset
  then show ?thesis by (simp add: resetGame_def)
qed

lemma step_highScore_mono: "\<not> js_lt (highScore (step e s)) (highScore s)"
proof -
  have "\<not> js_lt H H" for H by (cases H) simp_all
  moreover have "js_gt n H \<Longrightarrow> \<not> js_lt (Num n) H" for n H by (cases H) simp_all
  ultimately show ?thesis
    using step_highScore_cases [of e s] by metis
qed

lemma step_storage_matches:
  assumes "highScore (step e s) \<noteq> highScore s"
  shows "storage (step e s) = Some (toString (score (step e s))) \<and>
         highScore (step e s) = Num (score (step e s)) \<and>
         initial_highScore (storage (step e s)) = highScore (step e s)"
proof -
  from assms step_highScore_cases [of e s]
  have a: "highScore (step e s) = Num (score (step e s))"
    and b: "storage (step e s) = Some (toString (score (step e s)))"
    by auto
  with initial_highScore_toString [of "score (step e s)"] show ?thesis by simp
qed

lemma session_step:
  assumes "gameStarted s" and "highScore s = Num (max h0 (score s))" and "in_session e"
  shows "gameStarted (step e s) \<and> highScore (step e s) = Num (max h0 (score (step e s)))"
proof (cases e)
  case (Tick h r)
  show ?thesis
  proof (cases "playing s")
    case True
    have k: "0 \<le> window_count (pipesRef (gameLoop h r s))" by (rule window_count_nonneg)
    have sc: "score (gameLoop h r s) = score s + window_count (pipesRef (gameLoop h r s))"
      using gameLoop_playing(3,5) [OF True, of h r] by simp
    from gameLoop_highScore(1) [OF True, of h r] gameLoop_playing(1) [OF True, of h r] k sc assms(2)
    show ?thesis
      by (auto simp add: Tick)
  next
    case False
    with assms show ?thesis by (simp add: Tick gameLoop_idle)
  qed
next
  case Jump
  with assms show ?thesis by (simp add: jump_def Let_def)
next
  case Reset
  with assms show ?thesis by simp
qed

lemma session_run:
  assumes "gameStarted s" and "highScore s = Num (max h0 (score s))" and "list_all in_session es"
  shows "highScore (run es s) = Num (max h0 (score (run es s)))"
  using assms
proof (induction es arbitrary: s)
  case Nil
  then show ?case by simp
next
  case (Cons e es)
  from Cons.prems have e: "in_session e" and es: "list_all in_session es" by simp_all
  from session_step [OF Cons.prems(1,2) e]
  have "gameStarted (step e s)" "highScore (step e s) = Num (max h0 (score (step e s)))"
    by simp_all
  from Cons.IH [OF this es] show ?case by simp
qed

lemma run_replicate_Tick: "run (replicate n (Tick h r)) s = ticks (replicate n (h, r)) s"
  by (induction n arbitrary: s) simp_all

lemma in_session_flight: "list_all in_session (flight r)"
  by (simp add: flight_def cycle_def list_all_iff) auto

text \<open>
  Claim C4, as stated: after any completed session the high score is the maximum of its
  value before the session and the final score. The high score is read from storage with
  \<^verbatim>\<open>parseInt\<close> and only ever replaced by a score that exceeds it: with \<^verbatim>\<open>"-5"\<close> stored,
  a session that ends with score 0 leaves the high score at \<open>- 5\<close>, not at the maximum 0.
\<close>

theorem C4_negative_stored_high_score_stays:
  "\<not> gameStarted (initial (Some ''-5'')) \<and>
   highScore (initial (Some ''-5'')) = Num (- 5) \<and>
   gameOver (ticks (replicate 51 (0, 0)) (jump (initial (Some ''-5'')))) \<and>
   score (ticks (replicate 51 (0, 0)) (jump (initial (Some ''-5'')))) = 0 \<and>
   highScore (ticks (replicate 51 (0, 0)) (jump (initial (Some ''-5'')))) = Num (- 5) \<and>
   highScore (ticks (replicate 51 (0, 0)) (jump (initial (Some ''-5'')))) \<noteq> Num (max (- 5) 0)"
proof -
  have h: "highScore (initial (Some ''-5'')) = Num (- 5)"
    by (simp add: initial_def initial_highScore_def parseInt10_def is_ws_def is_digit_def
        dec_value_def digit_val_def Let_def)
  have l: "51 \<le> length (replicate 51 ((0, 0) :: int \<times> rat))" by simp
  from fall_over [OF initial_idle l, of "Some ''-5''"] h initial_idle(1) [of "Some ''-5''"]
  show ?thesis
    by (simp add: fall_state_def)
qed

text \<open>
  Claim C4, amended: the high score never decreases under any operation (tick, jump,
  reset); immediately after every change of it, it is the current score and the string
  written to storage is that number's, which reads back as the in-memory high score,
  and storage is not written while the high score stays; and
  when a session is started from Idle with a high score that is a non-negative integer
  \<open>h0\<close>, then at every point of the session, so also when it is completed, the high
  score is the maximum of \<open>h0\<close> and the score.
\<close>

theorem C4_high_score_monotone_max_persisted:
  "\<not> js_lt (highScore (step e s)) (highScore s) \<and>
   (highScore (step e s) \<noteq> highScore s \<longrightarrow>
      highScore (step e s) = Num (score (step e s)) \<and>
      storage (step e s) = Some (toString (score (step e s))) \<and>
      initial_highScore (storage (step e s)) = highScore (step e s)) \<and>
   (highScore (step e s) = highScore s \<longrightarrow> storage (step e s) = storage s) \<and>
   (\<not> gameStarted s0 \<and> highScore s0 = Num h0 \<and> 0 \<le> h0 \<and> list_all in_session es \<longrightarrow>
      highScore (run es (jump s0)) = Num (max h0 (score (run es (jump s0)))))"
proof -
  have "highScore (run es (jump s0)) = Num (max h0 (score (run es (jump s0))))"
    if "\<not> gameStarted s0" "highScore s0 = Num h0" "0 \<le> h0" "list_all in_session es"
  proof (rule session_run [OF _ _ that(4)])
    from that(1) show "gameStarted (jump s0)" by (simp add: jump_def Let_def)
    from that(1,2,3) show "highScore (jump s0) = Num (max h0 (score (jump s0)))"
      by (simp add: jump_def Let_def)
  qed
  moreover have "storage (step e s) = storage s" if "highScore (step e s) = highScore s"
  proof -
    have "\<not> js_gt n (Num n)" for n by simp
    with that step_highScore_cases [of e s] show ?thesis by metis
  qed
  ultimately show ?thesis
    using step_highScore_mono [of e s] step_storage_matches [of e s] by blast
qed

theorem C4_high_score_monotone_max_persisted_witness:
  "\<not> gameStarted (initial None) \<and> highScore (initial None) = Num 0 \<and>
   list_all in_session (flight (2 / 5) @ [Tick 366 (2 / 5)]) \<and>
   score (run (flight (2 / 5)) (jump (initial None))) = 0 \<and>
   highScore (run (flight (2 / 5)) (jump (initial None))) = Num 0 \<and>
   score (step (Tick 366 (2 / 5)) (run (flight (2 / 5)) (jump (initial None)))) = 1 \<and>
   highScore (step (Tick 366 (2 / 5)) (run (flight (2 / 5)) (jump (initial None)))) = Num 1 \<and>
   storage (step (Tick 366 (2 / 5)) (run (flight (2 / 5)) (jump (initial None)))) = Some ''1'' \<and>
   initial_highScore (Some ''1'') = Num 1 \<and>
   list_all in_session (replicate 51 (Tick 0 0)) \<and>
   gameOver (run (replicate 51 (Tick 0 0)) (jump (initial None))) \<and>
   score (run (replicate 51 (Tick 0 0)) (jump (initial None))) = 0 \<and>
   highScore (run (replicate 51 (Tick 0 0)) (jump (initial None))) = Num 0"
proof -
  define s0 where "s0 = jump (initial None)"
  define f where "f = flight (2 / 5)"
  define s where "s = run f s0"
  have i: "\<not> gameStarted (initial None)" "highScore (initial None) = Num 0"
    by (simp_all add: initial_def initial_highScore_def)
  have p: "pipesRef s0 = []" and sc0: "score s0 = 0"
    using jump_idle [OF initial_idle, of None] by (simp_all add: s0_def)
  have a: "arc_start s0"
    unfolding s0_def by (rule arc_start_jump [OF initial_idle])
  have r1: "running (f @ [Tick 366 (2 / 5)]) s0"
    unfolding f_def by (rule flight_running [OF a safe_two_fifths(1)]) (simp_all add: safe_two_fifths)
  from r1 have r0: "running f s0" by (simp add: running_snoc)
  have l: "length (tick_inputs f) = 267" and h: "tick_inputs f ! 0 = (99, 2 / 5)"
    by (simp_all add: f_def flight_ticks)
  have z: "score s = 0"
    using session_score_before [OF p r0] l sc0 by (simp add: s_def)
  from session_tick [OF p r1] have one: "score (step (Tick 366 (2 / 5)) s) = 1"
    by (simp add: l h spawns_def z [unfolded s_def] run_snoc s_def)
  have e1: "list_all in_session f" "list_all in_session (f @ [Tick 366 (2 / 5)])"
    by (simp_all add: f_def in_session_flight)
  have e2: "list_all in_session (replicate 51 (Tick 0 0))"
    by (simp add: list_all_iff)
  have ts: "toString 1 = ''1''" by code_simp
  note A = C4_high_score_monotone_max_persisted [of "Tick 366 (2 / 5)" s "initial None" 0 f]
  note B = C4_high_score_monotone_max_persisted [of "Tick 366 (2 / 5)" s "initial None" 0 "replicate 51 (Tick 0 0)"]
  note C = C4_high_score_monotone_max_persisted [of "Tick 366 (2 / 5)" s "initial None" 0 "f @ [Tick 366 (2 / 5)]"]
  from A i e1 z have hs0: "highScore s = Num 0"
    by (simp add: s_def s0_def)
  have st: "run (f @ [Tick 366 (2 / 5)]) (jump (initial None)) = step (Tick 366 (2 / 5)) s"
    by (simp add: run_snoc s_def s0_def)
  from C i e1 one have hs1: "highScore (step (Tick 366 (2 / 5)) s) = Num 1"
    unfolding st by simp
  with hs0 have "highScore (step (Tick 366 (2 / 5)) s) \<noteq> highScore s" by simp
  with A one ts have hs2: "storage (step (Tick 366 (2 / 5)) s) = Some ''1''"
    "initial_highScore (Some ''1'') = Num 1"
    by auto
  have l51: "51 \<le> length (replicate 51 ((0, 0) :: int \<times> rat))" by simp
  from fall_over [OF initial_idle l51, of None]
  have go: "gameOver (run (replicate 51 (Tick 0 0)) (jump (initial None)))"
    and sc: "score (run (replicate 51 (Tick 0 0)) (jump (initial None))) = 0"
    by (simp_all add: run_replicate_Tick fall_state_def)
  from B i e2 sc have hs: "highScore (run (replicate 51 (Tick 0 0)) (jump (initial None))) = Num 0"
    by simp
  from i e1 z hs0 one hs1 hs2 e2 go sc hs show ?thesis
    by (simp add: s_def s0_def f_def)
qed

section \<open>A bird inside a pipe\<close>

lemma aged_pipes_member:
  "k < length L \<Longrightarrow> spawns (fst (L ! k)) \<Longrightarrow> Suc k + a \<le> 284 \<Longrightarrow>
   aged_pipe (Suc k + a) (snd (L ! k)) \<in> set (aged_pipes L a)"
proof (induction L a arbitrary: k rule: aged_pipes.induct)
  case (1 a)
  then show ?case by simp
next
  case (2 h r older a)
  show ?case
  proof (cases k)
    case 0
    with "2.prems" show ?thesis by simp
  next
    case (Suc j)
    with "2.prems" have "j < length older" "spawns (fst (older ! j))" "Suc j + Suc a \<le> 284"
      by simp_all
    from "2.IH" [OF this] show ?thesis by (simp add: Suc)
  qed
qed

lemma aged_pipes_topHeight:
  "\<forall>l \<in> set L. snd l = r \<Longrightarrow> \<forall>p \<in> set (aged_pipes L a). topHeight p = topHeight (new_pipe r)"
  by (induction L a rule: aged_pipes.induct) (auto simp add: aged_pipe_def)

lemma tick_inputs_cycles_snd:
  "\<forall>l \<in> set (tick_inputs (concat (map (\<lambda>c. cycle (f c) r) cs))). snd l = r"
  by (induction cs) (auto simp add: tick_inputs_append tick_inputs_cycle)

lemma tick_inputs_cycles_first:
  "tick_inputs (concat (map (\<lambda>c. cycle (99 + 31 * int c) r) [0..<8])) ! 0 = (99, r)"
proof -
  have "[0..<8] = 0 # [1..<8]" by (simp add: upt_conv_Cons)
  moreover have "[0..<31] = 0 # [1..<31]" by (simp add: upt_conv_Cons)
  ultimately have "\<exists>rest. tick_inputs (concat (map (\<lambda>c. cycle (99 + 31 * int c) r) [0..<8])) = (99, r) # rest"
    by (simp add: tick_inputs_append tick_inputs_cycle)
  then show ?thesis by auto
qed

lemma safe_top_segment: "safe_pipe (new_pipe (99 / 100))" "topHeight (new_pipe (99 / 100)) = 595 / 2"
  by (simp_all add: safe_pipe_def new_pipe_def consts_defs)

lemma approach_reaches_pipe:
  assumes idle: "\<not> gameStarted s" "\<not> gameOver s" and safe: "safe_pipe (new_pipe r)"
  shows "playing (run (approach r) (jump s))"
    and "\<not> gameOver (gameLoop 348 r (run (approach r) (jump s)))"
    and "bird_y (birdRef (gameLoop 348 r (run (approach r) (jump s)))) = 471 / 2"
    and "aged_pipe 250 r \<in> set (pipesRef (gameLoop 348 r (run (approach r) (jump s))))"
    and "\<forall>p \<in> set (pipesRef (gameLoop 348 r (run (approach r) (jump s)))).
           topHeight p = topHeight (new_pipe r)"
proof -
  define cs where "cs = map (\<lambda>c. cycle (99 + 31 * int c) r) [0..<8]"
  define T where "T = tick_inputs (concat cs)"
  define L where "L = (348, r) # (347, r) # rev T"
  define es where "es = concat cs @ [Tick 347 r, Tick 348 r]"
  have a0: "arc_start (jump s)" by (rule arc_start_jump [OF idle])
  have "\<forall>c \<in> set cs. \<exists>ts. c = ts @ [Jump] \<and> list_all safe_tick ts \<and> length ts = 31"
    using safe_ticks_map [OF safe] by (auto simp add: cs_def cycle_def)
  from cycles_run [OF this a0]
  have r: "running (concat cs) (jump s)" and a: "arc_start (run (concat cs) (jump s))" by simp_all
  from arc_run [OF a, of "[Tick 347 r, Tick 348 r]"] safe
  have r2: "running [Tick 347 r, Tick 348 r] (run (concat cs) (jump s))"
    and pl: "playing (run [Tick 347 r, Tick 348 r] (run (concat cs) (jump s)))"
    and y: "bird_y (birdRef (run [Tick 347 r, Tick 348 r] (run (concat cs) (jump s)))) = 471 / 2"
    by (simp_all add: fall_y_def)
  have ap: "run es (jump s) = gameLoop 348 r (run (approach r) (jump s))"
    by (simp add: approach_def cs_def es_def run_append)
  from r r2 have run: "running es (jump s)"
    by (simp add: es_def running_append)
  then show "playing (run (approach r) (jump s))"
    by (simp add: es_def approach_def cs_def running_append run_append)
  from pl show "\<not> gameOver (gameLoop 348 r (run (approach r) (jump s)))"
    by (simp add: ap [symmetric] es_def run_append playing_def)
  from y show "bird_y (birdRef (gameLoop 348 r (run (approach r) (jump s)))) = 471 / 2"
    by (simp add: ap [symmetric] es_def run_append)
  have p0: "pipesRef (jump s) = []" by (rule jump_idle(3) [OF idle])
  have ps: "pipesRef (gameLoop 348 r (run (approach r) (jump s))) = aged_pipes L 0"
    using session_pipes [OF p0 run] by (simp add: ap [symmetric]) (simp add: es_def tick_inputs_append L_def T_def)
  have lT: "length T = 248"
    by (simp add: T_def cs_def tick_inputs_cycles)
  have "L ! 249 = rev T ! 247" by (simp add: L_def)
  also have "\<dots> = T ! (length T - Suc 247)" by (rule rev_nth) (simp add: lT)
  also have "\<dots> = T ! 0" by (simp add: lT)
  also have "\<dots> = (99, r)" unfolding T_def cs_def by (rule tick_inputs_cycles_first)
  finally have n: "L ! 249 = (99, r)" .
  have "aged_pipe (Suc 249 + 0) (snd (L ! 249)) \<in> set (aged_pipes L 0)"
    by (rule aged_pipes_member) (simp_all add: n spawns_def, simp add: L_def lT)
  then show "aged_pipe 250 r \<in> set (pipesRef (gameLoop 348 r (run (approach r) (jump s))))"
    by (simp add: ps n)
  have "\<forall>l \<in> set L. snd l = r"
    using tick_inputs_cycles_snd [of "\<lambda>c. 99 + 31 * int c" r "[0..<8]"]
    by (auto simp add: L_def T_def cs_def)
  from aged_pipes_topHeight [OF this]
  show "\<forall>p \<in> set (pipesRef (gameLoop 348 r (run (approach r) (jump s)))). topHeight p = topHeight (new_pipe r)"
    by (simp add: ps)
qed

lemma bird_flies_through_top_segment:
  "playing (run (approach (99 / 100)) (jump (initial None))) \<and>
   bird_y (birdRef (gameLoop 348 (99 / 100) (run (approach (99 / 100)) (jump (initial None))))) = 471 / 2 \<and>
   \<lparr>pipe_x = 50, topHeight = 595 / 2\<rparr>
     \<in> set (pipesRef (gameLoop 348 (99 / 100) (run (approach (99 / 100)) (jump (initial None))))) \<and>
   spec_collision (birdRef (gameLoop 348 (99 / 100) (run (approach (99 / 100)) (jump (initial None)))))
     (pipesRef (gameLoop 348 (99 / 100) (run (approach (99 / 100)) (jump (initial None))))) \<and>
   \<not> gameOver (gameLoop 348 (99 / 100) (run (approach (99 / 100)) (jump (initial None))))"
proof -
  define s where "s = gameLoop 348 (99 / 100) (run (approach (99 / 100)) (jump (initial None)))"
  note a = approach_reaches_pipe [OF initial_idle safe_top_segment(1), of None, folded s_def]
  have p: "aged_pipe 250 (99 / 100) = \<lparr>pipe_x = 50, topHeight = 595 / 2\<rparr>"
    by (simp add: aged_pipe_def safe_top_segment consts_defs)
  have "spec_pipe_collision (birdRef s) \<lparr>pipe_x = 50, topHeight = 595 / 2\<rparr>"
    by (simp add: spec_pipe_collision_def a(3) consts_defs)
  with a(4) have "spec_collision (birdRef s) (pipesRef s)"
    unfolding spec_collision_def list_ex_iff p by blast
  with a(1,2,3,4) show ?thesis by (simp add: p s_def)
qed

text \<open>
  Claim C1. On a Playing tick the session goes to GameOver if and only if the bird's
  vertical extent lies outside the gap band of a pipe that the bird overlaps horizontally,
  or the bird leaves the canvas vertically. Lemma \<open>gameOver_only_if\<close> is the direction from
  GameOver to the condition. The other direction fails: the pipe test of \<^verbatim>\<open>gameLoop\<close> also
  requires \<open>bird_y + BIRD_HEIGHT > topHeight\<close> and
  \<open>bird_y < topHeight + PIPE_GAP + BIRD_HEIGHT\<close>, so it sees a bird only within
  \<open>BIRD_HEIGHT\<close> of an edge of the gap. A bird that is wholly level with the top
  segments of the pipes, at least \<open>BIRD_HEIGHT\<close> above every gap, never ends the session,
  whether or not it overlaps a pipe horizontally. On \<open>inside_top_pipe_state\<close> it does
  overlap one, so the condition of the claim holds and the session goes on; and play
  reaches such a state from the initial one: after the inputs \<open>approach (99 / 100)\<close> the
  next tick puts the pipe of the first tick at 50 to 102 with its top segment down to
  297.5 and the bird at 50 to 84 and 235.5 to 259.5, and the session goes on.
\<close>

theorem C1_bird_inside_top_segment_not_detected:
  assumes "playing s"
    and "\<not> out_of_bounds (birdRef (gameLoop h r s))"
    and "\<forall>p \<in> set (pipesRef (gameLoop h r s)).
           bird_y (birdRef (gameLoop h r s)) + BIRD_HEIGHT \<le> topHeight p"
  shows "\<not> gameOver (gameLoop h r s)"
proof -
  have "\<not> list_ex (pipe_hit (birdRef (gameLoop h r s))) (pipesRef (gameLoop h r s))"
    using assms(3) by (auto simp add: list_ex_iff pipe_hit_def)
  with assms(2) have "\<not> collision (birdRef (gameLoop h r s)) (pipesRef (gameLoop h r s))"
    by (simp add: collision_def)
  then show ?thesis
    using gameLoop_playing(2,3,4) [OF assms(1), of h r] by simp
qed

theorem C1_bird_inside_top_segment_not_detected_witness:
  "playing inside_top_pipe_state \<and>
   birdRef (gameLoop 0 0 inside_top_pipe_state) = \<lparr>bird_y = 301 / 2, velocity = 1 / 2, rotation = 2, frame = 1\<rparr> \<and>
   pipesRef (gameLoop 0 0 inside_top_pipe_state) = [\<lparr>pipe_x = 77, topHeight = 275\<rparr>] \<and>
   spec_collision (birdRef (gameLoop 0 0 inside_top_pipe_state)) (pipesRef (gameLoop 0 0 inside_top_pipe_state)) \<and>
   \<not> gameOver (gameLoop 0 0 inside_top_pipe_state) \<and>
   playing (run (approach (99 / 100)) (jump (initial None))) \<and>
   spec_collision (birdRef (gameLoop 348 (99 / 100) (run (approach (99 / 100)) (jump (initial None)))))
     (pipesRef (gameLoop 348 (99 / 100) (run (approach (99 / 100)) (jump (initial None))))) \<and>
   \<not> gameOver (gameLoop 348 (99 / 100) (run (approach (99 / 100)) (jump (initial None))))"
proof -
  have p: "playing inside_top_pipe_state"
    by (simp add: inside_top_pipe_state_def playing_def)
  have b: "birdRef (gameLoop 0 0 inside_top_pipe_state) = \<lparr>bird_y = 301 / 2, velocity = 1 / 2, rotation = 2, frame = 1\<rparr>"
    by (simp add: gameLoop_playing playing_def update_bird_def Let_def inside_top_pipe_state_def consts_defs)
  have q: "pipesRef (gameLoop 0 0 inside_top_pipe_state) = [\<lparr>pipe_x = 77, topHeight = 275\<rparr>]"
    by (simp add: gameLoop_playing playing_def update_pipes_def generate_pipes_def inside_top_pipe_state_def consts_defs)
  have sc: "spec_collision (birdRef (gameLoop 0 0 inside_top_pipe_state)) (pipesRef (gameLoop 0 0 inside_top_pipe_state))"
    by (simp add: b q spec_collision_def spec_pipe_collision_def consts_defs)
  have o: "\<not> out_of_bounds (birdRef (gameLoop 0 0 inside_top_pipe_state))"
    by (simp add: b out_of_bounds_def consts_defs)
  have a: "\<forall>p \<in> set (pipesRef (gameLoop 0 0 inside_top_pipe_state)).
             bird_y (birdRef (gameLoop 0 0 inside_top_pipe_state)) + BIRD_HEIGHT \<le> topHeight p"
    by (simp add: b q consts_defs)
  note first = C1_bird_inside_top_segment_not_detected [OF p o a]
  define u where "u = run (approach (99 / 100)) (jump (initial None))"
  note reach = approach_reaches_pipe [OF initial_idle safe_top_segment(1), of None, folded u_def]
  note through = bird_flies_through_top_segment [folded u_def]
  have o': "\<not> out_of_bounds (birdRef (gameLoop 348 (99 / 100) u))"
    by (simp add: reach(3) out_of_bounds_def consts_defs)
  have a': "\<forall>p \<in> set (pipesRef (gameLoop 348 (99 / 100) u)).
             bird_y (birdRef (gameLoop 348 (99 / 100) u)) + BIRD_HEIGHT \<le> topHeight p"
    using reach(5) by (simp add: reach(3) safe_top_segment consts_defs)
  note second = C1_bird_inside_top_segment_not_detected [OF reach(1) o' a']
  from p b q sc first through second show ?thesis
    by (simp add: u_def)
qed

end
